theory Spec2Isabelle
  imports Main "HOL-Library.Word"
begin

unbundle bit_operations_syntax

section \<open>Bytes, text and binary encodings\<close>

text \<open>
  A Python \<open>bytes\<close> or \<open>bytearray\<close> value is a list of 8-bit words. Python integers
  are unbounded and are modelled by \<open>int\<close>; sizes and counters that the scripts only ever
  increase from zero are \<open>nat\<close>.
\<close>

type_synonym byte = "8 word"

text \<open>Exceptions that the modelled code can raise, and the one way it can fail to return.\<close>

datatype failure =
    StructError      \<comment> \<open>\<open>struct.error\<close>: a value does not fit its format code\<close>
  | ValueError       \<comment> \<open>\<open>bytes([..])\<close> with an element outside \<open>range(256)\<close>\<close>
  | KeyError         \<comment> \<open>dictionary lookup of a missing key\<close>
  | OSError          \<comment> \<open>the output file cannot be opened or written\<close>
  | ZeroDivisionError  \<comment> \<open>division by an elapsed time of zero\<close>
  | NonTermination   \<comment> \<open>a \<open>while\<close> loop whose state no longer changes\<close>

text \<open>\<open>str.encode("ascii")\<close> on text that is ASCII throughout.\<close>

definition encode_ascii :: "string \<Rightarrow> byte list" where
  "encode_ascii s = map (\<lambda>c. of_nat (of_char c)) s"

text \<open>Little-endian two's complement of the low \<open>8 * n\<close> bits, as \<open>struct.pack\<close> lays it out.\<close>

fun le_bytes :: "nat \<Rightarrow> int \<Rightarrow> byte list" where
  "le_bytes 0 v = []"
| "le_bytes (Suc n) v = of_int (v mod 256) # le_bytes n (v div 256)"

text \<open>
  \<open>struct.pack("<IqI", a, b, c)\<close>: standard sizes without padding (4 + 8 + 4 bytes),
  \<open>struct.error\<close> when an argument is out of range for its code.
\<close>

definition pack_IqI :: "int \<Rightarrow> int \<Rightarrow> int \<Rightarrow> failure + byte list" where
  "pack_IqI a b c =
     (if 0 \<le> a \<and> a < 2 ^ 32 \<and> - (2 ^ 63) \<le> b \<and> b < 2 ^ 63 \<and> 0 \<le> c \<and> c < 2 ^ 32
      then Inr (le_bytes 4 a @ le_bytes 8 b @ le_bytes 4 c)
      else Inl StructError)"

text \<open>Decimal text of an integer, as an f-string prints it.\<close>

definition digit_char :: "int \<Rightarrow> char" where
  "digit_char d = char_of (48 + d)"

function str_digits :: "int \<Rightarrow> string" where
  "str_digits n =
     (if n < 10 then [digit_char n] else str_digits (n div 10) @ [digit_char (n mod 10)])"
  by pat_completeness auto
termination
  by (relation "measure nat") auto

declare str_digits.simps [simp del]

definition str_int :: "int \<Rightarrow> string" where
  "str_int i = (if i < 0 then CHR ''-'' # str_digits (- i) else str_digits i)"

text \<open>The format spec \<open>{s:Ns}\<close>: left-aligned, padded with spaces, never truncated.\<close>

definition ljust :: "nat \<Rightarrow> string \<Rightarrow> string" where
  "ljust w s = s @ replicate (w - length s) CHR '' ''"

section \<open>The pseudo-random source\<close>

text \<open>
  \<open>random.Random\<close> belongs to the interpreter, not to the repository. It is taken as a
  parameter: a state type \<open>'r\<close> and the five operations the script calls, each a function
  of the state that returns its result with the next state.
\<close>

record 'r rng_ops =
  seed :: "int \<Rightarrow> 'r"                          \<comment> \<open>\<open>random.Random(n)\<close>\<close>
  randint :: "int \<Rightarrow> int \<Rightarrow> 'r \<Rightarrow> int \<times> 'r"      \<comment> \<open>\<open>rng.randint(a, b)\<close>\<close>
  choice :: "nat \<Rightarrow> 'r \<Rightarrow> nat \<times> 'r"             \<comment> \<open>index picked by \<open>rng.choice(seq)\<close>, given \<open>len(seq)\<close>\<close>
  getrandbits8 :: "'r \<Rightarrow> byte \<times> 'r"              \<comment> \<open>\<open>rng.getrandbits(8)\<close>\<close>
  randbytes :: "nat \<Rightarrow> 'r \<Rightarrow> byte list \<times> 'r"     \<comment> \<open>\<open>rng.randbytes(n)\<close>\<close>

text \<open>The documented contract of the library: results lie in the requested range.\<close>

definition rng_ok :: "'r rng_ops \<Rightarrow> bool" where
  "rng_ok ops \<longleftrightarrow>
     (\<forall>a b r. a \<le> b \<longrightarrow> a \<le> fst (randint ops a b r) \<and> fst (randint ops a b r) \<le> b) \<and>
     (\<forall>n r. 0 < n \<longrightarrow> fst (choice ops n r) < n) \<and>
     (\<forall>n r. length (fst (randbytes ops n r)) = n)"

section \<open>Entropy profiles (\<open>scripts/gen_1gb.py\<close>)\<close>

definition levels :: "string list" where
  "levels = [''INFO'', ''WARN'', ''ERROR'', ''DEBUG'', ''TRACE'']"

definition modules :: "string list" where
  "modules = [''server'', ''db'', ''auth'', ''cache'', ''net'', ''io'', ''parser'', ''render'']"

definition messages :: "string list" where
  "messages =
     [''request processed successfully'',
      ''connection established'',
      ''cache miss for key'',
      ''timeout waiting for response'',
      ''retrying operation'',
      ''invalid input received'',
      ''shutting down gracefully'',
      ''loaded configuration from disk'',
      ''spawned worker thread'',
      ''checksum verification passed'']"

text \<open>The f-string \<open>"[{ts}] {level:5s} {mod:8s} | {msg}\n"\<close>.\<close>

definition log_line :: "int \<Rightarrow> string \<Rightarrow> string \<Rightarrow> string \<Rightarrow> string" where
  "log_line ts level modl msg =
     ''['' @ str_int ts @ ''] '' @ ljust 5 level @ '' '' @ ljust 8 modl @ '' | '' @ msg @ [CHR 0x0A]"

text \<open>One pass of the \<open>while\<close> body of \<open>gen_ascii_log\<close>: the new timestamp, the line, the next state.\<close>

definition log_step :: "'r rng_ops \<Rightarrow> int \<Rightarrow> 'r \<Rightarrow> int \<times> byte list \<times> 'r" where
  "log_step ops ts r =
     (let (d, r1) = randint ops 1 5000 r;
          ts' = ts + d;
          (li, r2) = choice ops (length levels) r1;
          (mi, r3) = choice ops (length modules) r2;
          (gi, r4) = choice ops (length messages) r3
      in (ts', encode_ascii (log_line ts' (levels ! li) (modules ! mi) (messages ! gi)), r4))"

lemma log_line_nonempty: "encode_ascii (log_line ts l m g) \<noteq> []"
  by (simp add: encode_ascii_def log_line_def)

lemma log_step_nonempty: "log_step ops ts r = (ts', line, r') \<Longrightarrow> line \<noteq> []"
  by (auto simp: log_step_def Let_def log_line_nonempty split: prod.splits)

function ascii_log_loop :: "'r rng_ops \<Rightarrow> nat \<Rightarrow> byte list \<Rightarrow> int \<Rightarrow> 'r \<Rightarrow> byte list \<times> 'r" where
  "ascii_log_loop ops sz buf ts r =
     (if length buf < sz then
        (case log_step ops ts r of
           (ts', line, r') \<Rightarrow> ascii_log_loop ops sz (buf @ line) ts' r')
      else (buf, r))"
  by pat_completeness auto
termination
proof (relation "measure (\<lambda>(ops, sz, buf, ts, r). sz - length buf)", goal_cases)
  case 1
  show ?case by simp
next
  case (2 ops sz buf ts r ts' rest line r')
  then have "log_step ops ts r = (ts', line, r')" by simp
  then have "line \<noteq> []" by (rule log_step_nonempty)
  with 2 show ?case by (cases line) simp_all
qed

declare ascii_log_loop.simps [simp del]

definition gen_ascii_log :: "'r rng_ops \<Rightarrow> 'r \<Rightarrow> nat \<Rightarrow> byte list \<times> 'r" where
  "gen_ascii_log ops r sz =
     (case ascii_log_loop ops sz [] 1700000000 r of (buf, r') \<Rightarrow> (take sz buf, r'))"

text \<open>\<open>bytes(rng.getrandbits(8) for _ in range(n))\<close>: \<open>n\<close> successive draws.\<close>

fun rand_payload :: "'r rng_ops \<Rightarrow> nat \<Rightarrow> 'r \<Rightarrow> byte list \<times> 'r" where
  "rand_payload ops 0 r = ([], r)"
| "rand_payload ops (Suc n) r =
     (case getrandbits8 ops r of
        (b, r1) \<Rightarrow> (case rand_payload ops n r1 of (bs, r2) \<Rightarrow> (b # bs, r2)))"

lemma length_rand_payload: "length (fst (rand_payload ops n r)) = n"
proof (induction n arbitrary: r)
  case 0
  show ?case by simp
next
  case (Suc n)
  obtain b r1 where g: "getrandbits8 ops r = (b, r1)" by (cases "getrandbits8 ops r")
  obtain bs r2 where p: "rand_payload ops n r1 = (bs, r2)" by (cases "rand_payload ops n r1")
  from Suc [of r1] p have "length bs = n" by simp
  with g p show ?case by simp
qed

lemma rand_payload_length: "rand_payload ops n r = (bs, r') \<Longrightarrow> length bs = n"
  using length_rand_payload [of ops n r] by simp

text \<open>
  One pass of the \<open>while\<close> body of \<open>gen_structured_records\<close>: the 32 bytes of the record
  numbered \<open>rec_id\<close> and the next state, or the \<open>struct.error\<close> of \<open>struct.pack\<close>.
\<close>

definition record_step :: "'r rng_ops \<Rightarrow> int \<Rightarrow> 'r \<Rightarrow> failure + (byte list \<times> 'r)" where
  "record_step ops rec_id r =
     (let (j, r1) = randint ops 0 50 r;
          ts = 1700000000 + rec_id * 100 + j;
          (val, r2) = randint ops 0 1000000 r1;
          (payload, r3) = rand_payload ops 16 r2
      in case pack_IqI rec_id ts val of
           Inl e \<Rightarrow> Inl e
         | Inr hdr \<Rightarrow> Inr (hdr @ payload, r3))"

lemma length_le_bytes: "length (le_bytes n v) = n"
  by (induction n arbitrary: v) auto

lemma record_step_length: "record_step ops rec_id r = Inr (bs, r') \<Longrightarrow> length bs = 32"
  by (auto simp: record_step_def pack_IqI_def Let_def length_le_bytes
      split: prod.splits if_splits dest: rand_payload_length)

function records_loop ::
  "'r rng_ops \<Rightarrow> nat \<Rightarrow> byte list \<Rightarrow> int \<Rightarrow> 'r \<Rightarrow> failure + (byte list \<times> 'r)" where
  "records_loop ops sz buf rec_id r =
     (if length buf < sz then
        (case record_step ops rec_id r of
           Inl e \<Rightarrow> Inl e
         | Inr (bs, r') \<Rightarrow> records_loop ops sz (buf @ bs) (rec_id + 1) r')
      else Inr (buf, r))"
  by pat_completeness auto
termination
proof (relation "measure (\<lambda>(ops, sz, buf, rec_id, r). sz - length buf)", goal_cases)
  case 1
  show ?case by simp
next
  case (2 ops sz buf rec_id r x bs r')
  then have "length bs = 32" by (auto intro: record_step_length)
  with 2 show ?case by simp
qed

declare records_loop.simps [simp del]

definition gen_structured_records :: "'r rng_ops \<Rightarrow> 'r \<Rightarrow> nat \<Rightarrow> failure + (byte list \<times> 'r)" where
  "gen_structured_records ops r sz =
     (case records_loop ops sz [] 0 r of
        Inl e \<Rightarrow> Inl e
      | Inr (buf, r') \<Rightarrow> Inr (take sz buf, r'))"

definition gen_random_data :: "'r rng_ops \<Rightarrow> 'r \<Rightarrow> nat \<Rightarrow> byte list \<times> 'r" where
  "gen_random_data ops r sz = randbytes ops sz r"

definition gen_zeros :: "nat \<Rightarrow> byte list" where
  "gen_zeros sz = replicate sz 0"

section \<open>Planted signatures\<close>

definition MAGICS :: "(string \<times> byte list) list" where
  "MAGICS =
     [(''ELF'',  [0x7F] @ encode_ascii ''ELF'' @ [0x02, 0x01, 0x01, 0x00] @ replicate 8 0x00),
      (''PNG'',  [0x89] @ encode_ascii ''PNG'' @ [0x0D, 0x0A, 0x1A, 0x0A] @ replicate 8 0x00),
      (''PDF'',  encode_ascii ''%PDF-1.7'' @ [0x0A] @ replicate 6 0x00),
      (''ZIP'',  encode_ascii ''PK'' @ [0x03, 0x04] @ replicate 12 0x00),
      (''JPEG'', [0xFF, 0xD8, 0xFF, 0xE0] @ replicate 12 0x00)]"

definition TARGET_SIZE :: nat where
  "TARGET_SIZE = 1 * 1024 * 1024 * 1024"

definition MAGIC_OFFSETS :: "(int \<times> string) list" where
  "MAGIC_OFFSETS =
     [(0,                        ''ELF''),
      (1024,                     ''PNG''),
      (50 * 1024 * 1024,         ''ELF''),
      (100 * 1024 * 1024,        ''PDF''),
      (200 * 1024 * 1024,        ''ZIP''),
      (333 * 1024 * 1024,        ''JPEG''),
      (500 * 1024 * 1024,        ''ELF''),
      (512 * 1024 * 1024,        ''PNG''),
      (750 * 1024 * 1024,        ''PDF''),
      (900 * 1024 * 1024,        ''ZIP''),
      (int TARGET_SIZE - 1024,   ''ELF'')]"

text \<open>
  A Python \<open>dict\<close> as an association list in insertion order: \<open>d[k] = v\<close> replaces the
  value of a key that is present, in place, and appends a new key at the end.
\<close>

fun dict_set :: "('k \<times> 'v) list \<Rightarrow> 'k \<Rightarrow> 'v \<Rightarrow> ('k \<times> 'v) list" where
  "dict_set [] k v = [(k, v)]"
| "dict_set ((k', v') # d) k v = (if k' = k then (k, v) # d else (k', v') # dict_set d k v)"

text \<open>
  The loop \<open>for offset, name in MAGIC_OFFSETS: magic_map[offset] = MAGICS[name]\<close>,
  over any list of offsets and names.
\<close>

fun build_magic_map ::
  "(int \<times> string) list \<Rightarrow> (int \<times> byte list) list \<Rightarrow> failure + (int \<times> byte list) list" where
  "build_magic_map [] magic_map = Inr magic_map"
| "build_magic_map ((offset, name) # rest) magic_map =
     (case map_of MAGICS name of
        None \<Rightarrow> Inl KeyError
      | Some mdata \<Rightarrow> build_magic_map rest (dict_set magic_map offset mdata))"

text \<open>
  The body of \<open>for mo, mdata in magic_map.items()\<close> for one entry: the guarded slice
  assignment \<open>chunk[rel:rel + len(mdata)] = mdata\<close>. Under the guard the slice lies inside
  the buffer, so the assignment replaces exactly \<open>len(mdata)\<close> bytes.
\<close>

definition plant_one :: "nat \<Rightarrow> byte list \<Rightarrow> int \<times> byte list \<Rightarrow> byte list" where
  "plant_one written_now chunk m =
     (let rel = fst m - int written_now in
      if 0 \<le> rel \<and> rel < int (length chunk) \<and> rel + int (length (snd m)) \<le> int (length chunk)
      then take (nat rel) chunk @ snd m @ drop (nat rel + length (snd m)) chunk
      else chunk)"

definition plant_magics :: "(int \<times> byte list) list \<Rightarrow> nat \<Rightarrow> byte list \<Rightarrow> byte list" where
  "plant_magics magic_map written_now chunk = foldl (plant_one written_now) chunk magic_map"

section \<open>The chunked writer\<close>

text \<open>
  The output file is the list of bytes written so far. \<open>sink\<close> says, for the length the
  file has, whether the next \<open>f.write\<close> succeeds; a failed write raises \<open>OSError\<close>.
\<close>

definition f_write :: "(nat \<Rightarrow> bool) \<Rightarrow> byte list \<Rightarrow> byte list \<Rightarrow> failure + byte list" where
  "f_write sink f chunk = (if sink (length f) then Inr (f @ chunk) else Inl OSError)"

text \<open>The variables the four loops of \<open>main\<close> share: \<open>written\<close>, \<open>rng\<close> and the file \<open>f\<close>.\<close>

record 'r wstate =
  written :: nat
  rng :: 'r
  out :: "byte list"

text \<open>
  Sections 1 to 3 of \<open>main\<close> are the same loop around three generators; \<open>sect\<close> stands for
  \<open>SECTION_SIZE\<close> and \<open>chnk\<close> for \<open>CHUNK\<close>. With \<open>chnk = 0\<close> the source computes
  \<open>chunk_size = 0\<close> and \<open>section_written\<close> never grows: the loop does not end, which the
  model reports as \<open>NonTermination\<close>.
\<close>

function section_loop ::
  "('r \<Rightarrow> nat \<Rightarrow> failure + byte list \<times> 'r) \<Rightarrow> nat \<Rightarrow> nat \<Rightarrow> (int \<times> byte list) list \<Rightarrow>
   (nat \<Rightarrow> bool) \<Rightarrow> 'r wstate \<Rightarrow> nat \<Rightarrow> failure + 'r wstate" where
  "section_loop gen sect chnk magic_map sink st section_written =
     (if section_written < sect then
        (let chunk_size = min chnk (sect - section_written) in
         case gen (rng st) chunk_size of
           Inl e \<Rightarrow> Inl e
         | Inr (data, r') \<Rightarrow>
             (case f_write sink (out st) (plant_magics magic_map (written st) data) of
                Inl e \<Rightarrow> Inl e
              | Inr f' \<Rightarrow>
                  if chunk_size = 0 then Inl NonTermination
                  else section_loop gen sect chnk magic_map sink
                         \<lparr>written = written st + chunk_size, rng = r', out = f'\<rparr>
                         (section_written + chunk_size)))
      else Inr st)"
  by pat_completeness auto
termination
  by (relation "measure (\<lambda>(gen, sect, chnk, magic_map, sink, st, section_written).
        sect - section_written)") auto

declare section_loop.simps [simp del]

text \<open>
  Section 4: blocks of \<open>blk\<close> bytes (\<open>block_size\<close>), zeros when \<open>block_idx\<close> is even and
  random bytes when it is odd. Only the random blocks touch the generator.
\<close>

function mixed_loop ::
  "'r rng_ops \<Rightarrow> nat \<Rightarrow> nat \<Rightarrow> (int \<times> byte list) list \<Rightarrow>
   (nat \<Rightarrow> bool) \<Rightarrow> 'r wstate \<Rightarrow> nat \<Rightarrow> nat \<Rightarrow> failure + 'r wstate" where
  "mixed_loop ops remaining blk magic_map sink st section_written block_idx =
     (if section_written < remaining then
        (let chunk_size = min blk (remaining - section_written);
             (data, r') = (if block_idx mod 2 = 0 then (gen_zeros chunk_size, rng st)
                           else gen_random_data ops (rng st) chunk_size)
         in case f_write sink (out st) (plant_magics magic_map (written st) data) of
              Inl e \<Rightarrow> Inl e
            | Inr f' \<Rightarrow>
                if chunk_size = 0 then Inl NonTermination
                else mixed_loop ops remaining blk magic_map sink
                       \<lparr>written = written st + chunk_size, rng = r', out = f'\<rparr>
                       (section_written + chunk_size) (block_idx + 1))
      else Inr st)"
  by pat_completeness auto
termination
  by (relation "measure (\<lambda>(ops, remaining, blk, magic_map, sink, st, section_written, block_idx).
        remaining - section_written)") auto

declare mixed_loop.simps [simp del]

text \<open>
  The body of \<open>with open(OUTPUT, "wb") as f\<close>, for any sizes. \<open>remaining = TARGET_SIZE - written\<close>
  is an integer that may be negative in Python; the last loop then does not run, as it does
  not for the natural number 0 here.
\<close>

definition write_sections ::
  "'r rng_ops \<Rightarrow> nat \<Rightarrow> nat \<Rightarrow> nat \<Rightarrow> nat \<Rightarrow> (int \<times> byte list) list \<Rightarrow>
   (nat \<Rightarrow> bool) \<Rightarrow> 'r \<Rightarrow> failure + 'r wstate" where
  "write_sections ops target sect chnk blk magic_map sink r0 =
     (case section_loop (\<lambda>r n. Inr (gen_ascii_log ops r n)) sect chnk magic_map sink
             \<lparr>written = 0, rng = r0, out = []\<rparr> 0 of
        Inl e \<Rightarrow> Inl e
      | Inr st1 \<Rightarrow>
     (case section_loop (gen_structured_records ops) sect chnk magic_map sink st1 0 of
        Inl e \<Rightarrow> Inl e
      | Inr st2 \<Rightarrow>
     (case section_loop (\<lambda>r n. Inr (gen_random_data ops r n)) sect chnk magic_map sink st2 0 of
        Inl e \<Rightarrow> Inl e
      | Inr st3 \<Rightarrow>
          mixed_loop ops (target - written st3) blk magic_map sink st3 0 0)))"

text \<open>
  A run for any sizes and any list of planted offsets: seed 42, the magic map, then the
  file. This is \<open>main\<close> with its constants as parameters.
\<close>

definition generate ::
  "'r rng_ops \<Rightarrow> nat \<Rightarrow> nat \<Rightarrow> nat \<Rightarrow> nat \<Rightarrow> (int \<times> string) list \<Rightarrow>
   (nat \<Rightarrow> bool) \<Rightarrow> failure + byte list" where
  "generate ops target sect chnk blk offsets sink =
     (case build_magic_map offsets [] of
        Inl e \<Rightarrow> Inl e
      | Inr magic_map \<Rightarrow>
          (case write_sections ops target sect chnk blk magic_map sink (seed ops 42) of
             Inl e \<Rightarrow> Inl e
           | Inr st \<Rightarrow> Inr (out st)))"

definition SECTION_SIZE :: nat where
  "SECTION_SIZE = 256 * 1024 * 1024"

definition CHUNK :: nat where
  "CHUNK = 4 * 1024 * 1024"

definition block_size :: nat where
  "block_size = 1 * 1024 * 1024"

text \<open>
  What a run finds outside the program: the two readings of the clock (of a type \<open>'t\<close>
  left open), whether \<open>os.makedirs\<close> and \<open>open\<close> succeed, and the sink.
\<close>

record 't world =
  time_start :: 't
  time_end :: 't
  open_ok :: bool
  sink_ok :: "nat \<Rightarrow> bool"

text \<open>
  \<open>main\<close> of \<open>scripts/gen_1gb.py\<close>. It returns the file it wrote together with what it
  reports: the two clock readings behind \<open>elapsed\<close> and \<open>actual_size\<close>. After the file
  is closed, the line that prints the write speed divides by \<open>elapsed\<close>, the difference
  of the two readings: when they are equal, \<open>main\<close> raises \<open>ZeroDivisionError\<close>, with the
  file already on disk. The text of the printed lines is not modelled.
\<close>

definition gen_1gb_main :: "'r rng_ops \<Rightarrow> 't world \<Rightarrow> failure + (byte list \<times> 't \<times> 't \<times> nat)" where
  "gen_1gb_main ops env =
     (if \<not> open_ok env then Inl OSError
      else case generate ops TARGET_SIZE SECTION_SIZE CHUNK block_size MAGIC_OFFSETS (sink_ok env) of
             Inl e \<Rightarrow> Inl e
           | Inr f \<Rightarrow>
               if time_end env = time_start env then Inl ZeroDivisionError
               else Inr (f, time_start env, time_end env, length f))"

text \<open>Python's \<open>xs[i:j]\<close> for \<open>0 \<le> i\<close> and \<open>0 \<le> j\<close>.\<close>

definition py_slice :: "'a list \<Rightarrow> nat \<Rightarrow> nat \<Rightarrow> 'a list" where
  "py_slice xs i j = take (j - i) (drop i xs)"

section \<open>The fixed-layout fixture (\<open>examples/generate_sample.py\<close>)\<close>

text \<open>\<open>struct.pack\<close> of one unsigned field of \<open>n\<close> bytes (\<open>B\<close>, \<open>H\<close>, \<open>I\<close>, \<open>Q\<close> for 1, 2, 4, 8).\<close>

definition pack_unsigned :: "nat \<Rightarrow> int \<Rightarrow> failure + byte list" where
  "pack_unsigned n v = (if 0 \<le> v \<and> v < 2 ^ (8 * n) then Inr (le_bytes n v) else Inl StructError)"

text \<open>\<open>struct.pack("<BB", a, b)\<close>.\<close>

definition pack_BB :: "int \<Rightarrow> int \<Rightarrow> failure + byte list" where
  "pack_BB a b =
     (case pack_unsigned 1 a of
        Inl e \<Rightarrow> Inl e
      | Inr x \<Rightarrow> (case pack_unsigned 1 b of Inl e \<Rightarrow> Inl e | Inr y \<Rightarrow> Inr (x @ y)))"

text \<open>\<open>bytes(list of int)\<close>: \<open>ValueError\<close> unless every element is in \<open>range(256)\<close>.\<close>

definition py_bytes :: "int list \<Rightarrow> failure + byte list" where
  "py_bytes xs = (if list_all (\<lambda>x. 0 \<le> x \<and> x < 256) xs then Inr (map of_int xs) else Inl ValueError)"

text \<open>The data-table entry of index \<open>i\<close>, as the list that is handed to \<open>bytes\<close>.\<close>

definition entry :: "int \<Rightarrow> int list" where
  "entry i = [i, i * 2, i * 3, i * 4] @ map (\<lambda>j. (i + int j) XOR 0x55) [4..<16]"

definition sample_text :: "byte list" where
  "sample_text =
     encode_ascii ''This is sample text data in the TitanView test file format.'' @ [0x0A] @
     encode_ascii ''It demonstrates various data types and patterns.'' @ [0x0A] @
     encode_ascii ''You can use the Structure Inspector to parse the header.'' @ [0x0A]"

text \<open>
  The loop \<open>for _ in range(n): seed = (seed * 1103515245 + 12345) & 0xFFFFFFFF;
  random_data.append((seed >> 16) & 0xFF)\<close>.
\<close>

fun random_data :: "nat \<Rightarrow> int \<Rightarrow> int list" where
  "random_data 0 sd = []"
| "random_data (Suc n) sd =
     (let sd' = (sd * 1103515245 + 12345) AND 0xFFFFFFFF
      in ((drop_bit 16 sd') AND 0xFF) # random_data n sd')"

text \<open>
  The script is a sequence of \<open>f.write(e)\<close>: each argument is evaluated, which may raise,
  and is then written, which may fail.
\<close>

fun write_all :: "(nat \<Rightarrow> bool) \<Rightarrow> byte list \<Rightarrow> (failure + byte list) list \<Rightarrow> failure + byte list" where
  "write_all sink f [] = Inr f"
| "write_all sink f (Inl e # rest) = Inl e"
| "write_all sink f (Inr bs # rest) =
     (case f_write sink f bs of Inl e \<Rightarrow> Inl e | Inr f' \<Rightarrow> write_all sink f' rest)"

definition sample_name :: "byte list" where
  "sample_name = encode_ascii ''example_data_file''"

definition sample_writes :: "(failure + byte list) list" where
  "sample_writes =
     [Inr (encode_ascii ''TVTS''),
      pack_BB 1 5,
      pack_unsigned 2 0x0011,
      pack_unsigned 1 3,
      Inr [0x00, 0x00, 0x00],
      pack_unsigned 4 64,
      pack_unsigned 4 256,
      pack_unsigned 2 16,
      pack_unsigned 2 0xABCD,
      pack_unsigned 8 1706500000,
      Inr (sample_name @ replicate (32 - length sample_name) 0x00)]
     @ map (\<lambda>i. py_bytes (entry (int i))) [0..<16]
     @ [Inr sample_text,
        py_bytes (random_data 128 0xDEADBEEF),
        Inr (replicate 64 0x00)]"

text \<open>\<open>main\<close> of \<open>examples/generate_sample.py\<close>: the bytes of \<open>sample_file.tvts\<close>.\<close>

definition generate_sample_main :: "(nat \<Rightarrow> bool) \<Rightarrow> failure + byte list" where
  "generate_sample_main sink = write_all sink [] sample_writes"

section \<open>A concrete generator for evaluation\<close>

text \<open>
  To run the definitions on inputs, a stand-in for \<open>random.Random\<close> built on the
  linear-congruential step of the fixture script. Its state is the 32-bit LCG state.
\<close>

definition lcg_next :: "int \<Rightarrow> int" where
  "lcg_next s = (s * 1103515245 + 12345) mod 2 ^ 32"

definition lcg_draw :: "int \<Rightarrow> int" where
  "lcg_draw s = (s div 2 ^ 16) mod 2 ^ 15"

fun lcg_randbytes :: "nat \<Rightarrow> int \<Rightarrow> byte list \<times> int" where
  "lcg_randbytes 0 s = ([], s)"
| "lcg_randbytes (Suc n) s =
     (case lcg_randbytes n (lcg_next s) of (bs, s') \<Rightarrow> (of_int (lcg_draw (lcg_next s) mod 256) # bs, s'))"

definition lcg_rng :: "int rng_ops" where
  "lcg_rng =
     \<lparr>seed = (\<lambda>n. n mod 2 ^ 32),
      randint = (\<lambda>a b s. (a + lcg_draw (lcg_next s) mod (b - a + 1), lcg_next s)),
      choice = (\<lambda>n s. (nat (lcg_draw (lcg_next s) mod int n), lcg_next s)),
      getrandbits8 = (\<lambda>s. (of_int (lcg_draw (lcg_next s) mod 256), lcg_next s)),
      randbytes = lcg_randbytes\<rparr>"

definition always :: "nat \<Rightarrow> bool" where
  "always n = True"

section \<open>The fixture layout as the specification words it\<close>

text \<open>
  The generator of the fixture's noise, from the specification:
  \<open>state = (state * 1103515245 + 12345) mod 2^32\<close>, output byte \<open>(state >> 16) & 0xFF\<close>.
\<close>

fun lcg_spec :: "nat \<Rightarrow> int \<Rightarrow> int list" where
  "lcg_spec 0 s = []"
| "lcg_spec (Suc n) s =
     (let s' = (s * 1103515245 + 12345) mod 2 ^ 32 in ((drop_bit 16 s') AND 0xFF) # lcg_spec n s')"

text \<open>The 64-byte header, field by field, each little-endian field written out in bytes.\<close>

definition sample_header :: "byte list" where
  "sample_header =
     [0x54, 0x56, 0x54, 0x53]                            \<comment> \<open>magic \<open>TVTS\<close>\<close>
     @ [1, 5]                                            \<comment> \<open>version major, minor\<close>
     @ [0x11, 0x00]                                      \<comment> \<open>flags \<open>0x0011\<close>\<close>
     @ [3]                                               \<comment> \<open>file type\<close>
     @ [0, 0, 0]                                         \<comment> \<open>reserved\<close>
     @ [64, 0, 0, 0]                                     \<comment> \<open>data offset 64\<close>
     @ [0, 1, 0, 0]                                      \<comment> \<open>data size 256\<close>
     @ [16, 0]                                           \<comment> \<open>entry count 16\<close>
     @ [0xCD, 0xAB]                                      \<comment> \<open>checksum \<open>0xABCD\<close>\<close>
     @ [0xA0, 0x1F, 0xB7, 0x65, 0, 0, 0, 0]              \<comment> \<open>timestamp 1706500000\<close>
     @ encode_ascii ''example_data_file'' @ replicate 15 0  \<comment> \<open>name, null-padded to 32\<close>"

definition sample_table :: "byte list" where
  "sample_table = concat (map (\<lambda>i. map of_int (entry (int i))) [0..<16])"

section \<open>Vocabulary of the properties\<close>

subsection \<open>Spans of planted signatures\<close>

text \<open>
  \<open>inside w n m\<close>: the whole span of the entry \<open>m = (offset, bytes)\<close> lies in the chunk
  that starts at absolute offset \<open>w\<close> and has \<open>n\<close> bytes. \<open>covers m p\<close>: the absolute
  position \<open>p\<close> lies in the span of \<open>m\<close>. \<open>no_overlap\<close>: the spans of a list of entries
  are pairwise disjoint.
\<close>

definition inside :: "nat \<Rightarrow> nat \<Rightarrow> int \<times> byte list \<Rightarrow> bool" where
  "inside w n m \<longleftrightarrow> int w \<le> fst m \<and> fst m + int (length (snd m)) \<le> int w + int n"

definition covers :: "int \<times> byte list \<Rightarrow> int \<Rightarrow> bool" where
  "covers m p \<longleftrightarrow> fst m \<le> p \<and> p < fst m + int (length (snd m))"

fun no_overlap :: "(int \<times> byte list) list \<Rightarrow> bool" where
  "no_overlap [] = True"
| "no_overlap (m # ms) =
     (list_all (\<lambda>m'. fst m + int (length (snd m)) \<le> fst m' \<or>
                      fst m' + int (length (snd m')) \<le> fst m) ms \<and> no_overlap ms)"

text \<open>\<open>clear mm a b\<close>: no span of the entries \<open>mm\<close> meets the positions from \<open>a\<close> up to \<open>b\<close>.\<close>

definition clear :: "(int \<times> byte list) list \<Rightarrow> nat \<Rightarrow> nat \<Rightarrow> bool" where
  "clear mm a b = list_all (\<lambda>m. fst m + int (length (snd m)) \<le> int a \<or> int b \<le> fst m) mm"

subsection \<open>Chunks and records\<close>

text \<open>
  \<open>chunk_at target sect chnk blk p\<close>: start and length of the chunk that holds the absolute
  position \<open>p\<close>, for a file of three sections of \<open>sect\<close> bytes written in chunks of \<open>chnk\<close>
  and a last section written in blocks of \<open>blk\<close>.
\<close>

definition chunk_at :: "nat \<Rightarrow> nat \<Rightarrow> nat \<Rightarrow> nat \<Rightarrow> nat \<Rightarrow> nat \<times> nat" where
  "chunk_at target sect chnk blk p =
     (if p < 3 * sect
      then (let q = p mod sect; c = (q div chnk) * chnk
            in (p - q + c, min chnk (sect - c)))
      else (let q = p - 3 * sect; c = (q div blk) * blk
            in (3 * sect + c, min blk (target - 3 * sect - c))))"

text \<open>The dictionary that \<open>main\<close> builds from \<open>MAGIC_OFFSETS\<close>.\<close>

definition magic_map_1gb :: "(int \<times> byte list) list" where
  "magic_map_1gb =
     map (\<lambda>(offset, name).
            (offset, case map_of MAGICS name of None \<Rightarrow> [] | Some mdata \<Rightarrow> mdata))
         MAGIC_OFFSETS"

text \<open>
  \<open>record_at buf i\<close>: the record number \<open>i\<close> of a buffer carries the id \<open>i\<close> and a timestamp
  \<open>1700000000 + i * 100 + jitter\<close> with a jitter from 0 to 50.
\<close>

definition record_at :: "byte list \<Rightarrow> nat \<Rightarrow> bool" where
  "record_at buf i \<longleftrightarrow>
     py_slice buf (32 * i) (32 * i + 4) = le_bytes 4 (int i) \<and>
     (\<exists>j. 0 \<le> j \<and> j \<le> 50 \<and>
          py_slice buf (32 * i + 4) (32 * i + 12) = le_bytes 8 (1700000000 + int i * 100 + j))"

subsection \<open>Worlds and results\<close>

text \<open>A world in which nothing fails: the file opens and every write is accepted.\<close>

definition quiet_world :: "nat world" where
  "quiet_world = \<lparr>time_start = 0, time_end = 1, open_ok = True, sink_ok = always\<rparr>"

text \<open>A second world: other clock readings, the same willing sink.\<close>

definition late_world :: "nat world" where
  "late_world = \<lparr>time_start = 1000, time_end = 1060, open_ok = True, sink_ok = always\<rparr>"

text \<open>The file of a run, empty when the run raised.\<close>

definition file_of :: "failure + (byte list \<times> 'a) \<Rightarrow> byte list" where
  "file_of res = (case res of Inl e \<Rightarrow> [] | Inr (f, report) \<Rightarrow> f)"

text \<open>The bytes a run of \<open>generate\<close> wrote, empty when the run raised.\<close>

definition written_bytes :: "failure + byte list \<Rightarrow> byte list" where
  "written_bytes res = (case res of Inl e \<Rightarrow> [] | Inr f \<Rightarrow> f)"

section \<open>Properties\<close>

subsection \<open>Signature patterns\<close>

text \<open>
  C7. The five patterns of \<open>MAGICS\<close>, byte by byte. ELF, PNG, ZIP and JPEG have 16 bytes;
  the PDF pattern, \<open>%PDF-1.7\<close>, a line feed and six zero bytes, has 15, although the
  comment on its line says 16.
\<close>

theorem MAGICS_bytes:
  "map_of MAGICS ''ELF'' =
     Some [0x7F, 0x45, 0x4C, 0x46, 0x02, 0x01, 0x01, 0x00, 0, 0, 0, 0, 0, 0, 0, 0] \<and>
   map_of MAGICS ''PNG'' =
     Some [0x89, 0x50, 0x4E, 0x47, 0x0D, 0x0A, 0x1A, 0x0A, 0, 0, 0, 0, 0, 0, 0, 0] \<and>
   map_of MAGICS ''PDF'' =
     Some [0x25, 0x50, 0x44, 0x46, 0x2D, 0x31, 0x2E, 0x37, 0x0A, 0, 0, 0, 0, 0, 0] \<and>
   map_of MAGICS ''ZIP'' =
     Some [0x50, 0x4B, 0x03, 0x04, 0, 0, 0, 0, 0, 0, 0, 0, 0, 0, 0, 0] \<and>
   map_of MAGICS ''JPEG'' =
     Some [0xFF, 0xD8, 0xFF, 0xE0, 0, 0, 0, 0, 0, 0, 0, 0, 0, 0, 0, 0] \<and>
   map (\<lambda>(name, mdata). (name, length mdata)) MAGICS =
     [(''ELF'', 16), (''PNG'', 16), (''PDF'', 15), (''ZIP'', 16), (''JPEG'', 16)]"
  by (simp add: MAGICS_def encode_ascii_def numeral_eq_Suc)

subsection \<open>The fixture file\<close>

lemma and_mask32: "(x::int) AND 0xFFFFFFFF = x mod 2 ^ 32"
proof -
  have "(0xFFFFFFFF::int) = mask 32" by (simp add: mask_eq_exp_minus_1)
  then show ?thesis by (simp only: flip: take_bit_eq_mask) (simp add: take_bit_eq_mod)
qed

text \<open>The masked loop of the script computes the generator of the specification, for every seed.\<close>

lemma random_data_spec: "random_data n sd = lcg_spec n sd"
  by (induction n arbitrary: sd) (simp_all add: Let_def and_mask32)

lemma write_all_Inr:
  "write_all sink f items = Inr f' \<Longrightarrow> f' = f @ concat (map (case_sum (\<lambda>e. []) id) items)"
  by (induction sink f items rule: write_all.induct)
     (auto simp: f_write_def split: if_splits sum.splits)

lemma sample_writes_bytes:
  "concat (map (case_sum (\<lambda>e. []) id) sample_writes) =
     sample_header @ sample_table @ sample_text @ map of_int (random_data 128 0xDEADBEEF) @ replicate 64 0"
  by code_simp

lemma sample_parts_length:
  "length sample_header = 64 \<and> length sample_table = 256 \<and> length sample_text = 166 \<and>
   map (\<lambda>i. length (entry (int i))) [0..<16] = replicate 16 16"
  by code_simp

lemma sample_main_always:
  "generate_sample_main always =
     Inr (sample_header @ sample_table @ sample_text @ map of_int (random_data 128 0xDEADBEEF) @ replicate 64 0)"
  by code_simp

text \<open>
  C9. Whenever the script completes, the file is the 64-byte header (magic \<open>TVTS\<close>, then the
  fields in order), the 256-byte table whose entry \<open>i\<close> is \<open>entry i\<close> (16 bytes each), the
  text block, 128 bytes of the specification's generator started at \<open>0xDEADBEEF\<close>, and 64
  zero bytes.
\<close>

theorem sample_file_layout:
  assumes "generate_sample_main sink = Inr f"
  shows "f = sample_header @ sample_table @ sample_text
               @ map of_int (lcg_spec 128 0xDEADBEEF) @ replicate 64 0 \<and>
         length sample_header = 64 \<and> take 4 sample_header = encode_ascii ''TVTS'' \<and>
         length sample_table = 256 \<and>
         map (\<lambda>i. length (entry (int i))) [0..<16] = replicate 16 16 \<and>
         length (lcg_spec 128 0xDEADBEEF) = 128 \<and>
         length f = 64 + 256 + length sample_text + 128 + 64"
proof -
  from assms have "f = [] @ concat (map (case_sum (\<lambda>e. []) id) sample_writes)"
    unfolding generate_sample_main_def by (rule write_all_Inr)
  then have f: "f = sample_header @ sample_table @ sample_text
               @ map of_int (lcg_spec 128 0xDEADBEEF) @ replicate 64 0"
    by (simp add: sample_writes_bytes random_data_spec)
  have len: "length (lcg_spec n s) = n" for n s
    by (induction n arbitrary: s) (simp_all add: Let_def)
  have hd: "take 4 sample_header = encode_ascii ''TVTS''"
    by (simp add: sample_header_def encode_ascii_def)
  from f len hd sample_parts_length show ?thesis by simp
qed

theorem sample_file_layout_witness:
  "generate_sample_main always =
     Inr (sample_header @ sample_table @ sample_text
          @ map of_int (lcg_spec 128 0xDEADBEEF) @ replicate 64 0) \<and>
   length (sample_header @ sample_table @ sample_text
          @ map of_int (lcg_spec 128 0xDEADBEEF) @ replicate 64 (0::byte)) = 678"
  using sample_file_layout [OF sample_main_always] sample_main_always
  by (simp add: random_data_spec sample_parts_length)

subsection \<open>Slices and the splice of one chunk\<close>

lemma plant_one_inside:
  "plant_one w chunk m =
     (if inside w (length chunk) m
      then take (nat (fst m - int w)) chunk @ snd m
           @ drop (nat (fst m - int w) + length (snd m)) chunk
      else chunk)"
proof (cases "0 \<le> fst m - int w \<and> fst m - int w < int (length chunk) \<and>
               fst m - int w + int (length (snd m)) \<le> int (length chunk)")
  case True
  then have "inside w (length chunk) m" by (simp add: inside_def)
  with True show ?thesis by (simp add: plant_one_def Let_def)
next
  case False
  show ?thesis
  proof (cases "inside w (length chunk) m")
    case no: False
    with False show ?thesis by (auto simp: plant_one_def Let_def)
  next
    case yes: True
    with False have "length (snd m) = 0 \<and> nat (fst m - int w) = length chunk"
      unfolding inside_def by linarith
    then have "snd m = []" "nat (fst m - int w) = length chunk" by simp_all
    with False yes show ?thesis by (auto simp: plant_one_def Let_def)
  qed
qed

lemma length_plant_one: "length (plant_one w chunk m) = length chunk"
  by (auto simp: plant_one_def Let_def)

lemma length_plant_magics: "length (plant_magics mm w chunk) = length chunk"
  unfolding plant_magics_def
  by (induction mm arbitrary: chunk) (simp_all add: length_plant_one)

lemma plant_one_nth:
  assumes "i < length chunk" "\<not> (inside w (length chunk) m \<and> covers m (int w + int i))"
  shows "plant_one w chunk m ! i = chunk ! i"
proof (cases "inside w (length chunk) m")
  case False
  then show ?thesis by (simp add: plant_one_inside)
next
  case True
  define rel where "rel = nat (fst m - int w)"
  define len where "len = length (snd m)"
  from True have rel: "fst m = int w + int rel" and fit: "rel + len \<le> length chunk"
    by (auto simp: inside_def rel_def len_def)
  from assms True rel have out: "i < rel \<or> rel + len \<le> i"
    by (auto simp: covers_def len_def)
  have eq: "plant_one w chunk m = take rel chunk @ snd m @ drop (rel + len) chunk"
    using True by (simp add: plant_one_inside rel_def len_def)
  from out show ?thesis
  proof
    assume "i < rel"
    with fit show ?thesis by (simp add: eq nth_append)
  next
    assume "rel + len \<le> i"
    then have "\<not> i < rel" "\<not> i - rel < len" by simp_all
    with fit assms(1) \<open>rel + len \<le> i\<close> show ?thesis
      by (simp add: eq nth_append len_def [symmetric] min_def)
  qed
qed

lemma plant_magics_nth:
  assumes "i < length chunk"
    and "\<forall>m\<in>set mm. inside w (length chunk) m \<longrightarrow> \<not> covers m (int w + int i)"
  shows "plant_magics mm w chunk ! i = chunk ! i"
  using assms unfolding plant_magics_def
proof (induction mm arbitrary: chunk)
  case Nil
  show ?case by simp
next
  case (Cons m mm)
  have "foldl (plant_one w) (plant_one w chunk m) mm ! i = plant_one w chunk m ! i"
    using Cons.prems by (intro Cons.IH) (simp_all add: length_plant_one)
  also have "\<dots> = chunk ! i"
    using Cons.prems by (intro plant_one_nth) auto
  finally show ?case by simp
qed

lemma plant_magics_filter:
  "plant_magics mm w chunk = plant_magics (filter (inside w (length chunk)) mm) w chunk"
  unfolding plant_magics_def
proof (induction mm arbitrary: chunk)
  case Nil
  show ?case by simp
next
  case (Cons m mm)
  show ?case
  proof (cases "inside w (length chunk) m")
    case True
    with Cons [of "plant_one w chunk m"] show ?thesis by (simp add: length_plant_one)
  next
    case False
    then have "plant_one w chunk m = chunk" by (simp add: plant_one_inside)
    with False Cons [of chunk] show ?thesis by simp
  qed
qed

lemma slice_append_left: "j \<le> length xs \<Longrightarrow> py_slice (xs @ ys) i j = py_slice xs i j"
  by (simp add: py_slice_def)

lemma slice_append_right:
  "length xs \<le> i \<Longrightarrow> py_slice (xs @ ys) i j = py_slice ys (i - length xs) (j - length xs)"
  by (simp add: py_slice_def)

lemma slice_whole: "py_slice xs 0 (length xs) = xs"
  by (simp add: py_slice_def)

lemma length_slice: "j \<le> length xs \<Longrightarrow> length (py_slice xs i j) = j - i"
  by (simp add: py_slice_def)

lemma nth_slice: "i + k < j \<Longrightarrow> j \<le> length xs \<Longrightarrow> py_slice xs i j ! k = xs ! (i + k)"
  by (simp add: py_slice_def)

lemma slice_slice:
  "a + j \<le> b \<Longrightarrow> py_slice (py_slice xs a b) i j = py_slice xs (a + i) (a + j)"
proof -
  assume "a + j \<le> b"
  then have "min (j - i) (b - a - i) = j - i" by simp
  then have "take (j - i) (take (b - a - i) (drop (a + i) xs)) = take (j - i) (drop (a + i) xs)"
    by simp
  then show ?thesis by (simp add: py_slice_def drop_take add.commute)
qed

lemma slice_cong:
  assumes "length xs = length ys" "j \<le> length xs"
    and "\<And>k. i \<le> k \<Longrightarrow> k < j \<Longrightarrow> xs ! k = ys ! k"
  shows "py_slice xs i j = py_slice ys i j"
  using assms by (intro nth_equalityI) (simp_all add: py_slice_def)

lemma plant_one_slice:
  assumes "inside w (length chunk) m"
  shows "py_slice (plant_one w chunk m) (nat (fst m - int w)) (nat (fst m - int w) + length (snd m)) = snd m"
proof -
  from assms have "nat (fst m - int w) + length (snd m) \<le> length chunk"
    by (auto simp: inside_def)
  with assms show ?thesis by (simp add: plant_one_inside py_slice_def)
qed

lemma plant_magics_planted:
  assumes "m \<in> set mm" "inside w (length chunk) m" "no_overlap mm"
  shows "py_slice (plant_magics mm w chunk) (nat (fst m - int w)) (nat (fst m - int w) + length (snd m)) = snd m"
  using assms
proof (induction mm arbitrary: chunk)
  case Nil
  then show ?case by simp
next
  case (Cons m' ms)
  let ?rel = "nat (fst m - int w)"
  let ?c1 = "plant_one w chunk m'"
  have pm: "plant_magics (m' # ms) w chunk = plant_magics ms w ?c1"
    by (simp add: plant_magics_def)
  from Cons.prems(2) have rel: "fst m = int w + int ?rel" 
    and fit: "?rel + length (snd m) \<le> length chunk"
    by (auto simp: inside_def)
  show ?case
  proof (cases "m = m'")
    case True
    have dis: "\<forall>x\<in>set ms. fst m + int (length (snd m)) \<le> fst x \<or> fst x + int (length (snd x)) \<le> fst m"
      using Cons.prems(3) True by (simp add: list_all_iff)
    have "py_slice (plant_magics ms w ?c1) ?rel (?rel + length (snd m)) = py_slice ?c1 ?rel (?rel + length (snd m))"
    proof (rule slice_cong)
      show "length (plant_magics ms w ?c1) = length ?c1" by (simp add: length_plant_magics)
      show "?rel + length (snd m) \<le> length (plant_magics ms w ?c1)"
        using fit by (simp add: length_plant_magics length_plant_one)
    next
      fix k assume k: "?rel \<le> k" "k < ?rel + length (snd m)"
      show "plant_magics ms w ?c1 ! k = ?c1 ! k"
      proof (rule plant_magics_nth)
        show "k < length ?c1" using k fit by (simp add: length_plant_one)
        show "\<forall>x\<in>set ms. inside w (length ?c1) x \<longrightarrow> \<not> covers x (int w + int k)"
        proof (intro ballI impI)
          fix x assume "x \<in> set ms"
          with dis have "fst m + int (length (snd m)) \<le> fst x \<or> fst x + int (length (snd x)) \<le> fst m"
            by blast
          with k rel show "\<not> covers x (int w + int k)"
            unfolding covers_def by linarith
        qed
      qed
    qed
    also have "\<dots> = snd m"
      using Cons.prems(2) True by (simp add: plant_one_slice)
    finally show ?thesis by (simp add: pm)
  next
    case False
    with Cons.prems(1) have "m \<in> set ms" by simp
    moreover have "inside w (length ?c1) m" using Cons.prems(2) by (simp add: length_plant_one)
    moreover have "no_overlap ms" using Cons.prems(3) by simp
    ultimately show ?thesis unfolding pm by (rule Cons.IH)
  qed
qed

text \<open>
  C10. The splice of a chunk is all-or-nothing for each entry and changes nothing else:
  an entry is copied exactly when its whole span lies in the chunk, and is skipped, with the
  buffer unchanged, otherwise; entries that are not inside have no effect on the result;
  the length does not change; every byte outside the spans of the entries that are inside
  is the byte the generator produced.
\<close>

theorem plant_magics_frame:
  "plant_one w chunk m =
     (if inside w (length chunk) m
      then take (nat (fst m - int w)) chunk @ snd m
           @ drop (nat (fst m - int w) + length (snd m)) chunk
      else chunk) \<and>
   plant_magics magic_map w chunk =
     plant_magics (filter (inside w (length chunk)) magic_map) w chunk \<and>
   length (plant_magics magic_map w chunk) = length chunk \<and>
   (\<forall>i<length chunk.
      (\<forall>e\<in>set magic_map. inside w (length chunk) e \<longrightarrow> \<not> covers e (int w + int i)) \<longrightarrow>
      plant_magics magic_map w chunk ! i = chunk ! i)"
proof (intro conjI allI impI)
  show "plant_one w chunk m =
     (if inside w (length chunk) m
      then take (nat (fst m - int w)) chunk @ snd m
           @ drop (nat (fst m - int w) + length (snd m)) chunk
      else chunk)"
    by (rule plant_one_inside)
  show "plant_magics magic_map w chunk =
     plant_magics (filter (inside w (length chunk)) magic_map) w chunk"
    by (rule plant_magics_filter)
  show "length (plant_magics magic_map w chunk) = length chunk"
    by (rule length_plant_magics)
next
  fix i
  assume "i < length chunk"
    and "\<forall>e\<in>set magic_map. inside w (length chunk) e \<longrightarrow> \<not> covers e (int w + int i)"
  then show "plant_magics magic_map w chunk ! i = chunk ! i"
    by (rule plant_magics_nth)
qed

theorem plant_magics_frame_witness:
  "plant_magics [(2, [1, 2]), (6, [7, 8, 9])] 0 (replicate 8 0xAA) =
     [0xAA, 0xAA, 1, 2, 0xAA, 0xAA, 0xAA, 0xAA] \<and>
   \<not> inside 0 8 (6, [7, 8, 9]) \<and> inside 0 8 (2, [1, 2]) \<and>
   plant_one 0 (replicate 8 0xAA) (6, [7, 8, 9]) = replicate 8 0xAA \<and>
   plant_magics [(2, [1, 2]), (6, [7, 8, 9])] 0 (replicate 8 0xAA) ! 6 = replicate 8 0xAA ! 6"
proof -
  let ?mm = "[(2, [1, 2]), (6, [7, 8, 9])] :: (int \<times> byte list) list"
  let ?c = "replicate 8 (0xAA :: byte)"
  note t = plant_magics_frame [of 0 ?c "(6, [7, 8, 9])" ?mm]
  have no: "\<not> inside 0 8 (6, [7, 8, 9])" and yes: "inside 0 8 (2, [1, 2])"
    by (simp_all add: inside_def)
  from t have "plant_one 0 ?c (6, [7, 8, 9]) =
      (if inside 0 (length ?c) (6, [7, 8, 9])
       then take (nat (fst (6::int, [7, 8, 9::byte]) - int 0)) ?c @ snd (6::int, [7, 8, 9::byte])
           @ drop (nat (fst (6::int, [7, 8, 9::byte]) - int 0) + length (snd (6::int, [7, 8, 9::byte]))) ?c
       else ?c)" by (rule conjunct1)
  with no have one: "plant_one 0 ?c (6, [7, 8, 9]) = ?c" by simp
  from t have "plant_magics ?mm 0 ?c = plant_magics (filter (inside 0 (length ?c)) ?mm) 0 ?c"
    by (elim conjE)
  with no yes have "plant_magics ?mm 0 ?c = plant_magics [(2, [1, 2])] 0 ?c" by simp
  also have "\<dots> = [0xAA, 0xAA, 1, 2, 0xAA, 0xAA, 0xAA, 0xAA]"
    by (simp add: plant_magics_def plant_one_def numeral_eq_Suc)
  finally have all: "plant_magics ?mm 0 ?c = [0xAA, 0xAA, 1, 2, 0xAA, 0xAA, 0xAA, 0xAA]" .
  have "\<forall>e\<in>set ?mm. inside 0 (length ?c) e \<longrightarrow> \<not> covers e (int 0 + int 6)"
    by (simp add: inside_def covers_def)
  moreover from t have "\<forall>i<length ?c.
      (\<forall>e\<in>set ?mm. inside 0 (length ?c) e \<longrightarrow> \<not> covers e (int 0 + int i)) \<longrightarrow>
      plant_magics ?mm 0 ?c ! i = ?c ! i" by (elim conjE)
  ultimately have six: "plant_magics ?mm 0 ?c ! 6 = ?c ! 6" by (elim allE [of _ 6]) simp
  from all no yes one six show ?thesis by simp
qed

subsection \<open>Every generator returns the requested number of bytes\<close>

lemma ascii_log_loop_length:
  "ascii_log_loop ops sz buf ts r = (buf', r') \<Longrightarrow> sz \<le> length buf'"
proof (induction ops sz buf ts r rule: ascii_log_loop.induct)
  case (1 ops sz buf ts r)
  show ?case
  proof (cases "length buf < sz")
    case False
    with "1.prems" show ?thesis by (simp add: ascii_log_loop.simps [of ops sz buf])
  next
    case True
    obtain ts' line r1 where st: "log_step ops ts r = (ts', line, r1)"
      by (cases "log_step ops ts r") auto
    with True "1.prems" have "ascii_log_loop ops sz (buf @ line) ts' r1 = (buf', r')"
      by (simp add: ascii_log_loop.simps [of ops sz buf])
    with True st show ?thesis by (intro "1.IH") auto
  qed
qed

lemma length_gen_ascii_log: "length (fst (gen_ascii_log ops r sz)) = sz"
proof -
  obtain buf r' where l: "ascii_log_loop ops sz [] 1700000000 r = (buf, r')"
    by (cases "ascii_log_loop ops sz [] 1700000000 r")
  then have "sz \<le> length buf" by (rule ascii_log_loop_length)
  with l show ?thesis by (simp add: gen_ascii_log_def)
qed

lemma records_loop_length:
  "records_loop ops sz buf rec_id r = Inr (buf', r') \<Longrightarrow> sz \<le> length buf'"
proof (induction ops sz buf rec_id r rule: records_loop.induct)
  case (1 ops sz buf rec_id r)
  show ?case
  proof (cases "length buf < sz")
    case False
    with "1.prems" show ?thesis by (simp add: records_loop.simps [of ops sz buf])
  next
    case True
    with "1.prems" obtain bs r1 where st: "record_step ops rec_id r = Inr (bs, r1)"
      and rec: "records_loop ops sz (buf @ bs) (rec_id + 1) r1 = Inr (buf', r')"
      by (simp add: records_loop.simps [of ops sz buf] split: sum.splits prod.splits)
    with True show ?thesis by (intro "1.IH") auto
  qed
qed

lemma gen_structured_records_length:
  "gen_structured_records ops r sz = Inr (d, r') \<Longrightarrow> length d = sz"
  by (auto simp: gen_structured_records_def split: sum.splits prod.splits
      dest: records_loop_length)

lemma gen_random_data_length: "rng_ok ops \<Longrightarrow> length (fst (gen_random_data ops r sz)) = sz"
  by (simp add: gen_random_data_def rng_ok_def)

lemma length_gen_zeros: "length (gen_zeros sz) = sz"
  by (simp add: gen_zeros_def)

subsection \<open>The chunks of a section\<close>

lemma section_loop_chunks:
  assumes "section_loop gen sect chnk mm sink st sw = Inr st'"
    and exact: "\<forall>r n d r'. gen r n = Inr (d, r') \<longrightarrow> length d = n"
    and "length (out st) = written st" "sw \<le> sect"
  shows "(\<exists>ys. out st' = out st @ ys \<and> length ys = sect - sw) \<and>
         written st' = written st + (sect - sw) \<and>
         (\<forall>k. sw + k * chnk < sect \<longrightarrow>
            (\<exists>r d r'. gen r (min chnk (sect - (sw + k * chnk))) = Inr (d, r') \<and>
               py_slice (out st') (written st + k * chnk)
                     (written st + k * chnk + min chnk (sect - (sw + k * chnk)))
                 = plant_magics mm (written st + k * chnk) d))"
  using assms
proof (induction gen sect chnk mm sink st sw rule: section_loop.induct)
  case (1 gen sect chnk mm sink st sw)
  note exact = "1.prems"(2)
  show ?case
  proof (cases "sw < sect")
    case False
    with "1.prems" show ?thesis
      by (simp add: section_loop.simps [of gen sect chnk mm sink st sw])
  next
    case True
    define cs where "cs = min chnk (sect - sw)"
    from "1.prems"(1) True obtain d r1 f1 where g: "gen (rng st) cs = Inr (d, r1)"
      and w: "f_write sink (out st) (plant_magics mm (written st) d) = Inr f1"
      and cs0: "cs \<noteq> 0"
      and rec: "section_loop gen sect chnk mm sink
                  \<lparr>written = written st + cs, rng = r1, out = f1\<rparr> (sw + cs) = Inr st'"
      by (simp add: section_loop.simps [of gen sect chnk mm sink st sw] Let_def cs_def
          split: sum.splits prod.splits if_splits)
    let ?p = "plant_magics mm (written st) d"
    let ?st1 = "\<lparr>written = written st + cs, rng = r1, out = f1\<rparr>"
    from g exact have ld: "length d = cs" by blast
    then have lp: "length ?p = cs" by (simp add: length_plant_magics)
    from w have f1: "f1 = out st @ ?p" by (simp add: f_write_def split: if_splits)
    from True have le: "sw + cs \<le> sect" by (simp add: cs_def)
    have lf: "length (out ?st1) = written ?st1" using f1 lp "1.prems"(3) by simp
    have IH: "(\<exists>ys. out st' = out ?st1 @ ys \<and> length ys = sect - (sw + cs)) \<and>
         written st' = written ?st1 + (sect - (sw + cs)) \<and>
         (\<forall>k. (sw + cs) + k * chnk < sect \<longrightarrow>
            (\<exists>r d r'. gen r (min chnk (sect - ((sw + cs) + k * chnk))) = Inr (d, r') \<and>
               py_slice (out st') (written ?st1 + k * chnk)
                     (written ?st1 + k * chnk + min chnk (sect - ((sw + cs) + k * chnk)))
                 = plant_magics mm (written ?st1 + k * chnk) d))"
      using True g w cs0 rec lf le exact
      by (intro "1.IH" [of cs "(d, r1)" d r1 f1]) (simp_all add: cs_def)
    then obtain ys where ys: "out st' = f1 @ ys" "length ys = sect - (sw + cs)" by auto
    have c1: "\<exists>zs. out st' = out st @ zs \<and> length zs = sect - sw"
      using ys f1 lp le by (intro exI [of _ "?p @ ys"]) simp
    have c2: "written st' = written st + (sect - sw)" using IH le by simp
    have c3: "\<exists>r d r'. gen r (min chnk (sect - (sw + k * chnk))) = Inr (d, r') \<and>
               py_slice (out st') (written st + k * chnk)
                     (written st + k * chnk + min chnk (sect - (sw + k * chnk)))
                 = plant_magics mm (written st + k * chnk) d"
      if k: "sw + k * chnk < sect" for k
    proof (cases k)
      case 0
      have "py_slice (out st') (written st) (written st + cs) = ?p"
        using ys f1 lp "1.prems"(3)
        by (simp add: slice_append_right slice_append_left slice_whole [of ?p, simplified lp])
      with g 0 show ?thesis by (auto simp: cs_def)
    next
      case (Suc j)
      with k have cs: "cs = chnk" by (simp add: cs_def)
      from k Suc cs have "(sw + cs) + j * chnk < sect" by (simp add: add.assoc)
      with IH obtain r d' r' where
        "gen r (min chnk (sect - ((sw + cs) + j * chnk))) = Inr (d', r')" 
        "py_slice (out st') (written ?st1 + j * chnk)
                     (written ?st1 + j * chnk + min chnk (sect - ((sw + cs) + j * chnk)))
                 = plant_magics mm (written ?st1 + j * chnk) d'"
        by blast
      then show ?thesis using Suc cs by (auto simp: add.assoc add.left_commute)
    qed
    from c1 c2 c3 show ?thesis by blast
  qed
qed

lemma mixed_loop_chunks:
  assumes "mixed_loop ops remaining blk mm sink st sw idx = Inr st'"
    and "rng_ok ops" "length (out st) = written st" "sw \<le> remaining"
  shows "(\<exists>ys. out st' = out st @ ys \<and> length ys = remaining - sw) \<and>
         written st' = written st + (remaining - sw) \<and>
         (\<forall>k. sw + k * blk < remaining \<longrightarrow>
            (\<exists>d. (if (idx + k) mod 2 = 0
                  then d = gen_zeros (min blk (remaining - (sw + k * blk)))
                  else (\<exists>r r'. gen_random_data ops r (min blk (remaining - (sw + k * blk))) = (d, r'))) \<and>
               py_slice (out st') (written st + k * blk)
                     (written st + k * blk + min blk (remaining - (sw + k * blk)))
                 = plant_magics mm (written st + k * blk) d))"
  using assms
proof (induction ops remaining blk mm sink st sw idx rule: mixed_loop.induct)
  case (1 ops remaining blk mm sink st sw idx)
  note ok = "1.prems"(2)
  show ?case
  proof (cases "sw < remaining")
    case False
    with "1.prems" show ?thesis
      by (simp add: mixed_loop.simps [of ops remaining blk mm sink st sw idx])
  next
    case True
    define cs where "cs = min blk (remaining - sw)"
    define dr where "dr = (if idx mod 2 = 0 then (gen_zeros cs, rng st)
                           else gen_random_data ops (rng st) cs)"
    obtain d r1 where dr: "dr = (d, r1)" by (cases dr)
    from "1.prems"(1) True dr obtain f1 where
          w: "f_write sink (out st) (plant_magics mm (written st) d) = Inr f1"
      and cs0: "cs \<noteq> 0"
      and rec: "mixed_loop ops remaining blk mm sink
                  \<lparr>written = written st + cs, rng = r1, out = f1\<rparr> (sw + cs) (idx + 1) = Inr st'"
      by (simp add: mixed_loop.simps [of ops remaining blk mm sink st sw idx] Let_def
          cs_def [symmetric] dr_def [symmetric] split: sum.splits if_splits)
    let ?p = "plant_magics mm (written st) d"
    let ?st1 = "\<lparr>written = written st + cs, rng = r1, out = f1\<rparr>"
    have ld: "length d = cs"
      using dr ok gen_random_data_length [of ops "rng st" cs]
      by (auto simp: dr_def length_gen_zeros split: if_splits)
    then have lp: "length ?p = cs" by (simp add: length_plant_magics)
    from w have f1: "f1 = out st @ ?p" by (simp add: f_write_def split: if_splits)
    from True have le: "sw + cs \<le> remaining" by (simp add: cs_def)
    have lf: "length (out ?st1) = written ?st1" using f1 lp "1.prems"(3) by simp
    have IH: "(\<exists>ys. out st' = out ?st1 @ ys \<and> length ys = remaining - (sw + cs)) \<and>
         written st' = written ?st1 + (remaining - (sw + cs)) \<and>
         (\<forall>k. (sw + cs) + k * blk < remaining \<longrightarrow>
            (\<exists>d. (if ((idx + 1) + k) mod 2 = 0
                  then d = gen_zeros (min blk (remaining - ((sw + cs) + k * blk)))
                  else (\<exists>r r'. gen_random_data ops r (min blk (remaining - ((sw + cs) + k * blk))) = (d, r'))) \<and>
               py_slice (out st') (written ?st1 + k * blk)
                     (written ?st1 + k * blk + min blk (remaining - ((sw + cs) + k * blk)))
                 = plant_magics mm (written ?st1 + k * blk) d))"
      using True dr w cs0 rec lf le ok
      by (intro "1.IH" [of cs "(d, r1)" d r1 f1]) (simp_all add: cs_def dr_def)
    then obtain ys where ys: "out st' = f1 @ ys" "length ys = remaining - (sw + cs)" by auto
    have c1: "\<exists>zs. out st' = out st @ zs \<and> length zs = remaining - sw"
      using ys f1 lp le by (intro exI [of _ "?p @ ys"]) simp
    have c2: "written st' = written st + (remaining - sw)" using IH le by simp
    have c3: "\<exists>d. (if (idx + k) mod 2 = 0
                  then d = gen_zeros (min blk (remaining - (sw + k * blk)))
                  else (\<exists>r r'. gen_random_data ops r (min blk (remaining - (sw + k * blk))) = (d, r'))) \<and>
               py_slice (out st') (written st + k * blk)
                     (written st + k * blk + min blk (remaining - (sw + k * blk)))
                 = plant_magics mm (written st + k * blk) d"
      if k: "sw + k * blk < remaining" for k
    proof (cases k)
      case 0
      have "py_slice (out st') (written st) (written st + cs) = ?p"
        using ys f1 lp "1.prems"(3)
        by (simp add: slice_append_right slice_append_left slice_whole [of ?p, simplified lp])
      moreover have "if idx mod 2 = 0 then d = gen_zeros cs
                     else (\<exists>r r'. gen_random_data ops r cs = (d, r'))"
        using dr by (auto simp: dr_def split: if_splits)
      ultimately show ?thesis using 0 by (intro exI [of _ d]) (auto simp: cs_def split: if_splits)
    next
      case (Suc j)
      with k have cs: "cs = blk" by (simp add: cs_def)
      from k Suc cs have "(sw + cs) + j * blk < remaining" by (simp add: add.assoc)
      with IH obtain d' where
        "if ((idx + 1) + j) mod 2 = 0
                  then d' = gen_zeros (min blk (remaining - ((sw + cs) + j * blk)))
                  else (\<exists>r r'. gen_random_data ops r (min blk (remaining - ((sw + cs) + j * blk))) = (d', r'))"
        "py_slice (out st') (written ?st1 + j * blk)
                     (written ?st1 + j * blk + min blk (remaining - ((sw + cs) + j * blk)))
                 = plant_magics mm (written ?st1 + j * blk) d'"
        by blast
      then show ?thesis using Suc cs
        by (intro exI [of _ d']) (auto simp: add.assoc add.left_commute split: if_splits)
    qed
    from c1 c2 c3 show ?thesis by blast
  qed
qed

lemma write_sections_chunks:
  assumes run: "write_sections ops target sect chnk blk mm sink r0 = Inr st" and ok: "rng_ok ops"
  shows "length (out st) = 3 * sect + (target - 3 * sect)"
    and "written st = 3 * sect + (target - 3 * sect)"
    and "\<And>k. k * chnk < sect \<Longrightarrow>
          \<exists>r d r'. gen_ascii_log ops r (min chnk (sect - k * chnk)) = (d, r') \<and>
            py_slice (out st) (k * chnk) (k * chnk + min chnk (sect - k * chnk))
              = plant_magics mm (k * chnk) d"
    and "\<And>k. k * chnk < sect \<Longrightarrow>
          \<exists>r d r'. gen_structured_records ops r (min chnk (sect - k * chnk)) = Inr (d, r') \<and>
            py_slice (out st) (sect + k * chnk) (sect + k * chnk + min chnk (sect - k * chnk))
              = plant_magics mm (sect + k * chnk) d"
    and "\<And>k. k * chnk < sect \<Longrightarrow>
          \<exists>r d r'. gen_random_data ops r (min chnk (sect - k * chnk)) = (d, r') \<and>
            py_slice (out st) (2 * sect + k * chnk) (2 * sect + k * chnk + min chnk (sect - k * chnk))
              = plant_magics mm (2 * sect + k * chnk) d"
    and "\<And>k. k * blk < target - 3 * sect \<Longrightarrow>
          \<exists>d. (if k mod 2 = 0 then d = gen_zeros (min blk (target - 3 * sect - k * blk))
                else (\<exists>r r'. gen_random_data ops r (min blk (target - 3 * sect - k * blk)) = (d, r'))) \<and>
            py_slice (out st) (3 * sect + k * blk)
                     (3 * sect + k * blk + min blk (target - 3 * sect - k * blk))
              = plant_magics mm (3 * sect + k * blk) d"
proof -
  let ?g1 = "\<lambda>r n. Inr (gen_ascii_log ops r n) :: failure + (byte list \<times> 'a)"
  let ?g3 = "\<lambda>r n. Inr (gen_random_data ops r n) :: failure + (byte list \<times> 'a)"
  let ?st0 = "\<lparr>written = 0, rng = r0, out = []\<rparr>"
  from run obtain st1 st2 st3 where
        s1: "section_loop ?g1 sect chnk mm sink ?st0 0 = Inr st1"
    and s2: "section_loop (gen_structured_records ops) sect chnk mm sink st1 0 = Inr st2"
    and s3: "section_loop ?g3 sect chnk mm sink st2 0 = Inr st3"
    and s4: "mixed_loop ops (target - written st3) blk mm sink st3 0 0 = Inr st"
    by (auto simp: write_sections_def split: sum.splits)
  have e1: "\<forall>r n d r'. ?g1 r n = Inr (d, r') \<longrightarrow> length d = n"
    using length_gen_ascii_log by (metis fst_conv sum.inject(2))
  have e2: "\<forall>r n d r'. gen_structured_records ops r n = Inr (d, r') \<longrightarrow> length d = n"
    by (auto dest: gen_structured_records_length)
  have e3: "\<forall>r n d r'. ?g3 r n = Inr (d, r') \<longrightarrow> length d = n"
    using gen_random_data_length [OF ok] by (metis fst_conv sum.inject(2))
  note c1 = section_loop_chunks [OF s1 e1, simplified]
  from c1 obtain ys1 where o1: "out st1 = ys1" "length ys1 = sect" and w1: "written st1 = sect"
    by auto
  have l1: "length (out st1) = written st1" using o1 w1 by simp
  note c2 = section_loop_chunks [OF s2 e2 l1, simplified]
  from c2 obtain ys2 where o2: "out st2 = out st1 @ ys2" "length ys2 = sect"
    and w2: "written st2 = 2 * sect" using w1 by auto
  have l2: "length (out st2) = written st2" using o1 o2 w2 by simp
  note c3 = section_loop_chunks [OF s3 e3 l2, simplified]
  from c3 obtain ys3 where o3: "out st3 = out st2 @ ys3" "length ys3 = sect"
    and w3: "written st3 = 3 * sect" using w2 by auto
  have l3: "length (out st3) = written st3" using o1 o2 o3 w3 by simp
  note c4 = mixed_loop_chunks [OF s4 ok l3, simplified]
  from c4 obtain ys4 where o4: "out st = out st3 @ ys4" "length ys4 = target - 3 * sect"
    and w4: "written st = 3 * sect + (target - 3 * sect)" using w3 by auto
  show "length (out st) = 3 * sect + (target - 3 * sect)"
    using o1 o2 o3 o4 by simp
  show "written st = 3 * sect + (target - 3 * sect)" by (rule w4)
  {
    fix k assume k: "k * chnk < sect"
    with c1 obtain r d r' where g: "gen_ascii_log ops r (min chnk (sect - k * chnk)) = (d, r')"
      and sl: "py_slice (out st1) (k * chnk) (k * chnk + min chnk (sect - k * chnk))
                = plant_magics mm (k * chnk) d"
      by blast
    have "k * chnk + min chnk (sect - k * chnk) \<le> length (out st1)" using k o1 by simp
    with sl have "py_slice (out st) (k * chnk) (k * chnk + min chnk (sect - k * chnk))
                = plant_magics mm (k * chnk) d"
      using o2 o3 o4 by (simp add: slice_append_left)
    with g show "\<exists>r d r'. gen_ascii_log ops r (min chnk (sect - k * chnk)) = (d, r') \<and>
            py_slice (out st) (k * chnk) (k * chnk + min chnk (sect - k * chnk))
              = plant_magics mm (k * chnk) d" by blast
  }
  {
    fix k assume k: "k * chnk < sect"
    with c2 [unfolded w1] obtain r d r' where
          g: "gen_structured_records ops r (min chnk (sect - k * chnk)) = Inr (d, r')"
      and sl: "py_slice (out st2) (sect + k * chnk) (sect + k * chnk + min chnk (sect - k * chnk))
                = plant_magics mm (sect + k * chnk) d"
      by blast
    have "sect + k * chnk + min chnk (sect - k * chnk) \<le> length (out st2)"
      using k o1 o2 by simp
    with sl have "py_slice (out st) (sect + k * chnk) (sect + k * chnk + min chnk (sect - k * chnk))
                = plant_magics mm (sect + k * chnk) d"
      using o3 o4 by (simp add: slice_append_left)
    with g show "\<exists>r d r'. gen_structured_records ops r (min chnk (sect - k * chnk)) = Inr (d, r') \<and>
            py_slice (out st) (sect + k * chnk) (sect + k * chnk + min chnk (sect - k * chnk))
              = plant_magics mm (sect + k * chnk) d" by blast
  }
  {
    fix k assume k: "k * chnk < sect"
    with c3 [unfolded w2] obtain r d r' where
          g: "gen_random_data ops r (min chnk (sect - k * chnk)) = (d, r')"
      and sl: "py_slice (out st3) (2 * sect + k * chnk) (2 * sect + k * chnk + min chnk (sect - k * chnk))
                = plant_magics mm (2 * sect + k * chnk) d"
      by blast
    have "2 * sect + k * chnk + min chnk (sect - k * chnk) \<le> length (out st3)"
      using k o1 o2 o3 by simp
    with sl have "py_slice (out st) (2 * sect + k * chnk) (2 * sect + k * chnk + min chnk (sect - k * chnk))
                = plant_magics mm (2 * sect + k * chnk) d"
      using o4 by (simp add: slice_append_left)
    with g show "\<exists>r d r'. gen_random_data ops r (min chnk (sect - k * chnk)) = (d, r') \<and>
            py_slice (out st) (2 * sect + k * chnk) (2 * sect + k * chnk + min chnk (sect - k * chnk))
              = plant_magics mm (2 * sect + k * chnk) d" by blast
  }
  {
    fix k assume k: "k * blk < target - 3 * sect"
    have eq: "target - 3 * sect - (0 + k * blk) = target - 3 * sect - k * blk" by simp
    from k c4 [unfolded w3, THEN conjunct2, THEN conjunct2, rule_format, of k]
    obtain d where
      d: "if k mod 2 = 0 then d = gen_zeros (min blk (target - 3 * sect - (0 + k * blk)))
          else (\<exists>r r'. gen_random_data ops r (min blk (target - 3 * sect - (0 + k * blk))) = (d, r'))"
      and sl: "py_slice (out st) (3 * sect + k * blk)
                (3 * sect + k * blk + min blk (target - 3 * sect - (0 + k * blk)))
               = plant_magics mm (3 * sect + k * blk) d"
      by auto
    show "\<exists>d. (if k mod 2 = 0 then d = gen_zeros (min blk (target - 3 * sect - k * blk))
                else (\<exists>r r'. gen_random_data ops r (min blk (target - 3 * sect - k * blk)) = (d, r'))) \<and>
            py_slice (out st) (3 * sect + k * blk)
                     (3 * sect + k * blk + min blk (target - 3 * sect - k * blk))
              = plant_magics mm (3 * sect + k * blk) d"
      using d sl unfolding eq by (intro exI [of _ d]) simp
  }
qed

subsection \<open>Runs that complete\<close>

lemma record_step_total:
  assumes "rng_ok ops" "0 \<le> rec_id" "rec_id < 2 ^ 32"
  shows "\<exists>bs r'. record_step ops rec_id r = Inr (bs, r')"
proof -
  obtain j r1 where j: "randint ops 0 50 r = (j, r1)" by (cases "randint ops 0 50 r")
  obtain v r2 where v: "randint ops 0 1000000 r1 = (v, r2)" by (cases "randint ops 0 1000000 r1")
  obtain p r3 where p: "rand_payload ops 16 r2 = (p, r3)" by (cases "rand_payload ops 16 r2")
  from assms(1) have "0 \<le> fst (randint ops 0 50 r) \<and> fst (randint ops 0 50 r) \<le> 50"
    unfolding rng_ok_def by (metis zero_le_numeral)
  with j have jr: "0 \<le> j" "j \<le> 50" by simp_all
  from assms(1) have "0 \<le> fst (randint ops 0 1000000 r1) \<and> fst (randint ops 0 1000000 r1) \<le> 1000000"
    unfolding rng_ok_def by (metis zero_le_numeral)
  with v have vr: "0 \<le> v" "v \<le> 1000000" by simp_all
  from assms(2,3) jr vr
  have "pack_IqI rec_id (1700000000 + rec_id * 100 + j) v =
          Inr (le_bytes 4 rec_id @ le_bytes 8 (1700000000 + rec_id * 100 + j) @ le_bytes 4 v)"
    by (simp add: pack_IqI_def)
  with j v p show ?thesis by (simp add: record_step_def)
qed

lemma records_loop_total:
  assumes "rng_ok ops" "int (length buf) = 32 * rec_id" "sz \<le> 32 * 2 ^ 32"
  shows "\<exists>buf' r'. records_loop ops sz buf rec_id r = Inr (buf', r')"
  using assms
proof (induction ops sz buf rec_id r rule: records_loop.induct)
  case (1 ops sz buf rec_id r)
  show ?case
  proof (cases "length buf < sz")
    case False
    then show ?thesis by (simp add: records_loop.simps [of ops sz buf])
  next
    case True
    from "1.prems"(2) have nn: "0 \<le> rec_id" by linarith
    from True have "int (length buf) < int sz" by simp
    moreover from "1.prems"(3) have "int sz \<le> 137438953472" by simp
    ultimately have "rec_id < 4294967296" using "1.prems"(2) by linarith
    then have lt: "rec_id < 2 ^ 32" by simp
    from record_step_total [OF "1.prems"(1) nn lt] obtain bs r1
      where st: "record_step ops rec_id r = Inr (bs, r1)" by blast
    then have "length bs = 32" by (rule record_step_length)
    with "1.prems"(2) have "int (length (buf @ bs)) = 32 * (rec_id + 1)" by simp
    with True st "1.prems"(1,3)
    have "\<exists>buf' r'. records_loop ops sz (buf @ bs) (rec_id + 1) r1 = Inr (buf', r')"
      by (intro "1.IH") auto
    with True st show ?thesis by (simp add: records_loop.simps [of ops sz buf])
  qed
qed

lemma gen_structured_records_total:
  assumes "rng_ok ops" "sz \<le> 32 * 2 ^ 32"
  shows "\<exists>d r'. gen_structured_records ops r sz = Inr (d, r')"
proof -
  from assms obtain buf r' where "records_loop ops sz [] 0 r = Inr (buf, r')"
    using records_loop_total [of ops "[]" 0 sz r] by auto
  then show ?thesis by (simp add: gen_structured_records_def)
qed

lemma section_loop_total:
  assumes "\<forall>r n. n \<le> chnk \<longrightarrow> (\<exists>d r'. gen r n = Inr (d, r'))" "\<forall>n. sink n" "0 < chnk"
  shows "\<exists>st'. section_loop gen sect chnk mm sink st sw = Inr st'"
  using assms
proof (induction gen sect chnk mm sink st sw rule: section_loop.induct)
  case (1 gen sect chnk mm sink st sw)
  show ?case
  proof (cases "sw < sect")
    case False
    then show ?thesis by (simp add: section_loop.simps [of gen sect chnk mm sink st sw])
  next
    case True
    define cs where "cs = min chnk (sect - sw)"
    from True "1.prems"(3) have cs0: "cs \<noteq> 0" by (simp add: cs_def)
    have "cs \<le> chnk" by (simp add: cs_def)
    with "1.prems"(1) obtain d r1 where g: "gen (rng st) cs = Inr (d, r1)" by blast
    define f1 where "f1 = out st @ plant_magics mm (written st) d"
    from "1.prems"(2) have w: "f_write sink (out st) (plant_magics mm (written st) d) = Inr f1"
      by (simp add: f_write_def f1_def)
    have "\<exists>st'. section_loop gen sect chnk mm sink
                  \<lparr>written = written st + cs, rng = r1, out = f1\<rparr> (sw + cs) = Inr st'"
      using True g w cs0 "1.prems"
      by (intro "1.IH" [of cs "(d, r1)" d r1 f1]) (simp_all add: cs_def)
    with True g w cs0 show ?thesis
      by (simp add: section_loop.simps [of gen sect chnk mm sink st sw] Let_def cs_def [symmetric])
  qed
qed

lemma mixed_loop_total:
  assumes "\<forall>n. sink n" "0 < blk"
  shows "\<exists>st'. mixed_loop ops remaining blk mm sink st sw idx = Inr st'"
  using assms
proof (induction ops remaining blk mm sink st sw idx rule: mixed_loop.induct)
  case (1 ops remaining blk mm sink st sw idx)
  show ?case
  proof (cases "sw < remaining")
    case False
    then show ?thesis by (simp add: mixed_loop.simps [of ops remaining blk mm sink st sw idx])
  next
    case True
    define cs where "cs = min blk (remaining - sw)"
    define dr where "dr = (if idx mod 2 = 0 then (gen_zeros cs, rng st)
                           else gen_random_data ops (rng st) cs)"
    obtain d r1 where dr: "dr = (d, r1)" by (cases dr)
    from True "1.prems"(2) have cs0: "cs \<noteq> 0" by (simp add: cs_def)
    define f1 where "f1 = out st @ plant_magics mm (written st) d"
    from "1.prems"(1) have w: "f_write sink (out st) (plant_magics mm (written st) d) = Inr f1"
      by (simp add: f_write_def f1_def)
    have "\<exists>st'. mixed_loop ops remaining blk mm sink
                  \<lparr>written = written st + cs, rng = r1, out = f1\<rparr> (sw + cs) (idx + 1) = Inr st'"
      using True dr w cs0 "1.prems"
      by (intro "1.IH" [of cs "(d, r1)" d r1 f1]) (simp_all add: cs_def dr_def)
    with True dr w cs0 show ?thesis
      by (simp add: mixed_loop.simps [of ops remaining blk mm sink st sw idx] Let_def
          cs_def [symmetric] dr_def [symmetric])
  qed
qed

lemma write_sections_total:
  assumes "rng_ok ops" "\<forall>n. sink n" "0 < chnk" "chnk \<le> 32 * 2 ^ 32" "0 < blk"
  shows "\<exists>st. write_sections ops target sect chnk blk mm sink r0 = Inr st"
proof -
  let ?g1 = "\<lambda>r n. Inr (gen_ascii_log ops r n) :: failure + (byte list \<times> 'a)"
  let ?g3 = "\<lambda>r n. Inr (gen_random_data ops r n) :: failure + (byte list \<times> 'a)"
  have t1: "\<forall>r n. n \<le> chnk \<longrightarrow> (\<exists>d r'. ?g1 r n = Inr (d, r'))" by (simp add: prod_eq_iff)
  have t3: "\<forall>r n. n \<le> chnk \<longrightarrow> (\<exists>d r'. ?g3 r n = Inr (d, r'))" by (simp add: prod_eq_iff)
  have t2: "\<forall>r n. n \<le> chnk \<longrightarrow> (\<exists>d r'. gen_structured_records ops r n = Inr (d, r'))"
    using gen_structured_records_total [OF assms(1)] assms(4) by (meson le_trans)
  obtain st1 where s1: "section_loop ?g1 sect chnk mm sink \<lparr>written = 0, rng = r0, out = []\<rparr> 0 = Inr st1"
    using section_loop_total [OF t1 assms(2,3)] by blast
  obtain st2 where s2: "section_loop (gen_structured_records ops) sect chnk mm sink st1 0 = Inr st2"
    using section_loop_total [OF t2 assms(2,3)] by blast
  obtain st3 where s3: "section_loop ?g3 sect chnk mm sink st2 0 = Inr st3"
    using section_loop_total [OF t3 assms(2,3)] by blast
  obtain st4 where s4: "mixed_loop ops (target - written st3) blk mm sink st3 0 0 = Inr st4"
    using mixed_loop_total [OF assms(2,5)] by blast
  from s1 s2 s3 s4 show ?thesis by (simp add: write_sections_def)
qed

lemma gen_random_data_exact:
  "rng_ok ops \<Longrightarrow> gen_random_data ops r sz = (d, r') \<Longrightarrow> length d = sz"
  using gen_random_data_length [of ops r sz] by simp

lemma section_loop_chnk_pos:
  assumes "section_loop gen sect chnk mm sink st sw = Inr st'" "sw < sect"
  shows "0 < chnk"
  using assms
  by (simp add: section_loop.simps [of gen sect chnk mm sink st sw] Let_def
      split: sum.splits prod.splits if_splits)

lemma mixed_loop_blk_pos:
  assumes "mixed_loop ops remaining blk mm sink st sw idx = Inr st'" "sw < remaining"
  shows "0 < blk"
  using assms
  by (simp add: mixed_loop.simps [of ops remaining blk mm sink st sw idx] Let_def
      split: sum.splits prod.splits if_splits)

lemma write_sections_pos:
  assumes run: "write_sections ops target sect chnk blk mm sink r0 = Inr st" and ok: "rng_ok ops"
  shows "0 < sect \<Longrightarrow> 0 < chnk" and "3 * sect < target \<Longrightarrow> 0 < blk"
proof -
  let ?g1 = "\<lambda>r n. Inr (gen_ascii_log ops r n) :: failure + (byte list \<times> 'a)"
  let ?g3 = "\<lambda>r n. Inr (gen_random_data ops r n) :: failure + (byte list \<times> 'a)"
  let ?st0 = "\<lparr>written = 0, rng = r0, out = []\<rparr>"
  from run obtain st1 st2 st3 where
        s1: "section_loop ?g1 sect chnk mm sink ?st0 0 = Inr st1"
    and s2: "section_loop (gen_structured_records ops) sect chnk mm sink st1 0 = Inr st2"
    and s3: "section_loop ?g3 sect chnk mm sink st2 0 = Inr st3"
    and s4: "mixed_loop ops (target - written st3) blk mm sink st3 0 0 = Inr st"
    by (auto simp: write_sections_def split: sum.splits)
  show "0 < sect \<Longrightarrow> 0 < chnk" using s1 by (rule section_loop_chnk_pos)
  have e1: "\<forall>r n d r'. ?g1 r n = Inr (d, r') \<longrightarrow> length d = n"
    using length_gen_ascii_log by (metis fst_conv sum.inject(2))
  have e2: "\<forall>r n d r'. gen_structured_records ops r n = Inr (d, r') \<longrightarrow> length d = n"
    by (auto dest: gen_structured_records_length)
  have e3: "\<forall>r n d r'. ?g3 r n = Inr (d, r') \<longrightarrow> length d = n"
    using gen_random_data_length [OF ok] by (metis fst_conv sum.inject(2))
  note c1 = section_loop_chunks [OF s1 e1, simplified]
  from c1 obtain ys1 where o1: "out st1 = ys1" "length ys1 = sect" and w1: "written st1 = sect"
    by auto
  have l1: "length (out st1) = written st1" using o1 w1 by simp
  note c2 = section_loop_chunks [OF s2 e2 l1, simplified]
  from c2 obtain ys2 where o2: "out st2 = out st1 @ ys2" "length ys2 = sect"
    and w2: "written st2 = 2 * sect" using w1 by auto
  have l2: "length (out st2) = written st2" using o1 o2 w2 by simp
  note c3 = section_loop_chunks [OF s3 e3 l2, simplified]
  from c3 w2 have w3: "written st3 = 3 * sect" by auto
  show "3 * sect < target \<Longrightarrow> 0 < blk"
    using s4 [unfolded w3] by (rule mixed_loop_blk_pos) simp
qed

lemma chunk_at_file:
  assumes run: "write_sections ops target sect chnk blk mm sink r0 = Inr st" and ok: "rng_ok ops"
    and p: "p < length (out st)" and c: "chunk_at target sect chnk blk p = (w, n)"
  shows "\<exists>d. length d = n \<and> py_slice (out st) w (w + n) = plant_magics mm w d"
    and "w \<le> p" and "p < w + n" and "w + n \<le> length (out st)"
proof -
  note len = write_sections_chunks(1) [OF run ok]
  have "(\<exists>d. length d = n \<and> py_slice (out st) w (w + n) = plant_magics mm w d) \<and>
        w \<le> p \<and> p < w + n \<and> w + n \<le> length (out st)"
  proof (cases "p < 3 * sect")
    case True
    then have sp: "0 < sect" by simp
    then have cp: "0 < chnk" by (rule write_sections_pos(1) [OF run ok])
    define q where "q = p mod sect"
    define k where "k = q div chnk"
    from sp have q: "q < sect" by (simp add: q_def)
    have kq: "k * chnk \<le> q" by (simp add: k_def)
    with q have k: "k * chnk < sect" by simp
    from c True have "(p - q + k * chnk, min chnk (sect - k * chnk)) = (w, n)"
      by (simp only: chunk_at_def Let_def q_def k_def if_True)
    then have w: "w = p - q + k * chnk" and n: "n = min chnk (sect - k * chnk)"
      by (simp_all only: prod.inject)
    have pq: "p - q = (p div sect) * sect" by (simp add: q_def minus_mod_eq_div_mult)
    from True sp have s3: "p div sect < 3" by (simp add: less_mult_imp_div_less mult.commute)
    have qk: "q - k * chnk < chnk"
      using cp by (simp add: k_def minus_div_mult_eq_mod)
    have qp: "q \<le> p" by (simp add: q_def)
    have wp: "w \<le> p" using w kq qp by simp
    have "p = (p - q) + k * chnk + (q - k * chnk)" using kq qp by simp
    moreover have "q - k * chnk < n" using qk q kq n by simp
    ultimately have pw: "p < w + n" using w by linarith
    have a: "(p div sect + 1) * sect \<le> 3 * sect" using s3 by (intro mult_le_mono1) simp
    have "k * chnk + n \<le> sect" using n k by simp
    then have b: "w + n \<le> (p div sect + 1) * sect"
      using w pq by simp
    from b a have "w + n \<le> 3 * sect" by (rule le_trans)
    then have fit: "w + n \<le> length (out st)" using len by linarith
    consider "p div sect = 0" | "p div sect = 1" | "p div sect = 2" using s3 by linarith
    then have "\<exists>d. length d = n \<and> py_slice (out st) w (w + n) = plant_magics mm w d"
    proof cases
      case 1
      with w pq have w0: "w = k * chnk" by simp
      from write_sections_chunks(3) [OF run ok k] obtain r d r' where
        "gen_ascii_log ops r n = (d, r')" "py_slice (out st) w (w + n) = plant_magics mm w d"
        unfolding w0 n by blast
      moreover from this have "length d = n" using length_gen_ascii_log [of ops r n] by simp
      ultimately show ?thesis by blast
    next
      case 2
      with w pq have w0: "w = sect + k * chnk" by simp
      from write_sections_chunks(4) [OF run ok k] obtain r d r' where
        "gen_structured_records ops r n = Inr (d, r')" "py_slice (out st) w (w + n) = plant_magics mm w d"
        unfolding w0 n by blast
      moreover from this have "length d = n" by (auto dest: gen_structured_records_length)
      ultimately show ?thesis by blast
    next
      case 3
      with w pq have w0: "w = 2 * sect + k * chnk" by simp
      from write_sections_chunks(5) [OF run ok k] obtain r d r' where
        "gen_random_data ops r n = (d, r')" "py_slice (out st) w (w + n) = plant_magics mm w d"
        unfolding w0 n by blast
      moreover from this have "length d = n" by (auto dest: gen_random_data_exact [OF ok])
      ultimately show ?thesis by blast
    qed
    with wp pw fit show ?thesis by blast
  next
    case False
    with p len have lt: "3 * sect < target" by simp
    then have bp: "0 < blk" by (rule write_sections_pos(2) [OF run ok])
    define q where "q = p - 3 * sect"
    define k where "k = q div blk"
    from p len False have q: "q < target - 3 * sect" by (simp add: q_def)
    have kq: "k * blk \<le> q" by (simp add: k_def)
    with q have k: "k * blk < target - 3 * sect" by simp
    from c False have "(3 * sect + k * blk, min blk (target - 3 * sect - k * blk)) = (w, n)"
      by (simp only: chunk_at_def Let_def q_def k_def if_False)
    then have w: "w = 3 * sect + k * blk" and n: "n = min blk (target - 3 * sect - k * blk)"
      by (simp_all only: prod.inject)
    have qk: "q - k * blk < blk"
      using bp by (simp add: k_def minus_div_mult_eq_mod)
    have wp: "w \<le> p" using w kq False by (simp add: q_def)
    have "p = 3 * sect + k * blk + (q - k * blk)" using kq False by (simp add: q_def)
    moreover have "q - k * blk < n" using qk q kq n by simp
    ultimately have pw: "p < w + n" using w by linarith
    have "k * blk + n \<le> target - 3 * sect" using n k by simp
    then have fit: "w + n \<le> length (out st)" using w len by linarith
    from write_sections_chunks(6) [OF run ok k] obtain d where
      d: "if k mod 2 = 0 then d = gen_zeros n else (\<exists>r r'. gen_random_data ops r n = (d, r'))"
      and sl: "py_slice (out st) w (w + n) = plant_magics mm w d"
      unfolding w n by blast
    from d have "length d = n"
      by (auto simp: length_gen_zeros split: if_splits dest: gen_random_data_exact [OF ok])
    with sl wp pw fit show ?thesis by blast
  qed
  then show "\<exists>d. length d = n \<and> py_slice (out st) w (w + n) = plant_magics mm w d"
    and "w \<le> p" and "p < w + n" and "w + n \<le> length (out st)" by blast+
qed

subsection \<open>Planted signatures in the file\<close>

lemma planted_in_file:
  assumes run: "write_sections ops target sect chnk blk mm sink r0 = Inr st" and ok: "rng_ok ops"
    and m: "m \<in> set mm" and no: "no_overlap mm"
    and pos: "0 \<le> fst m" "nat (fst m) < length (out st)"
    and c: "chunk_at target sect chnk blk (nat (fst m)) = (w, n)"
    and ins: "inside w n m"
  shows "py_slice (out st) (nat (fst m)) (nat (fst m) + length (snd m)) = snd m"
proof -
  from chunk_at_file [OF run ok pos(2) c] obtain d where
    d: "length d = n" and sl: "py_slice (out st) w (w + n) = plant_magics mm w d"
    by blast
  let ?rel = "nat (fst m - int w)"
  from ins have rel: "w + ?rel = nat (fst m)" and fit: "w + (?rel + length (snd m)) \<le> w + n"
    by (auto simp: inside_def)
  from ins d have "inside w (length d) m" by simp
  from plant_magics_planted [OF m this no]
  have "py_slice (plant_magics mm w d) ?rel (?rel + length (snd m)) = snd m" .
  then have "py_slice (py_slice (out st) w (w + n)) ?rel (?rel + length (snd m)) = snd m"
    by (simp add: sl)
  then have "py_slice (out st) (w + ?rel) (w + (?rel + length (snd m))) = snd m"
    using fit by (simp add: slice_slice)
  then show ?thesis by (simp add: rel add.assoc [symmetric])
qed

lemma rng_ok_lcg: "rng_ok lcg_rng"
proof -
  have len: "length (fst (lcg_randbytes n s)) = n" for n s
  proof (induction n arbitrary: s)
    case 0
    show ?case by simp
  next
    case (Suc n)
    from Suc [of "lcg_next s"] show ?case
      by (cases "lcg_randbytes n (lcg_next s)") simp
  qed
  have r: "a \<le> b \<Longrightarrow> a \<le> a + x mod (b - a + 1) \<and> a + x mod (b - a + 1) \<le> b" for a b x :: int
    using pos_mod_bound [of "b - a + 1" x] pos_mod_sign [of "b - a + 1" x] by linarith
  have c: "0 < n \<Longrightarrow> nat (x mod int n) < n" for n x
    using pos_mod_bound [of "int n" x] pos_mod_sign [of "int n" x] by linarith
  show ?thesis
    unfolding rng_ok_def lcg_rng_def by (simp add: len r c)
qed

lemma build_magic_map_1gb: "build_magic_map MAGIC_OFFSETS [] = Inr magic_map_1gb"
  by (simp add: magic_map_1gb_def MAGIC_OFFSETS_def MAGICS_def TARGET_SIZE_def)

lemma magic_map_1gb_mem:
  "(offset, name) \<in> set MAGIC_OFFSETS \<Longrightarrow> map_of MAGICS name = Some pattern \<Longrightarrow>
   (offset, pattern) \<in> set magic_map_1gb"
  by (force simp: magic_map_1gb_def)

lemma no_overlap_1gb: "no_overlap magic_map_1gb"
  by (simp add: magic_map_1gb_def MAGIC_OFFSETS_def MAGICS_def TARGET_SIZE_def encode_ascii_def)

lemma main_run:
  assumes "gen_1gb_main ops env = Inr (f, t0, t1, n)"
  obtains st where
    "write_sections ops TARGET_SIZE SECTION_SIZE CHUNK block_size magic_map_1gb (sink_ok env)
       (seed ops 42) = Inr st"
    and "f = out st" and "n = length f" and "t0 = time_start env" and "t1 = time_end env"
    and "open_ok env"
  using assms
  by (auto simp: gen_1gb_main_def generate_def build_magic_map_1gb split: if_splits sum.splits)

lemma sizes_1gb:
  "TARGET_SIZE = 1073741824" "SECTION_SIZE = 268435456" "CHUNK = 4194304" "block_size = 1048576"
  by (simp_all add: TARGET_SIZE_def SECTION_SIZE_def CHUNK_def block_size_def)

lemma main_total:
  assumes "rng_ok ops" "open_ok env" "\<forall>n. sink_ok env n" "time_end env \<noteq> time_start env"
  shows "\<exists>f. gen_1gb_main ops env = Inr (f, time_start env, time_end env, length f)"
proof -
  have "\<exists>st. write_sections ops TARGET_SIZE SECTION_SIZE CHUNK block_size magic_map_1gb
          (sink_ok env) (seed ops 42) = Inr st"
    using assms(1,3) by (intro write_sections_total) (simp_all add: sizes_1gb)
  with assms(2,4) show ?thesis
    by (auto simp: gen_1gb_main_def generate_def build_magic_map_1gb)
qed

subsection \<open>Exact size\<close>

lemma write_sections_tiles:
  assumes run: "write_sections ops target sect chnk blk mm sink r0 = Inr st" and ok: "rng_ok ops"
  shows "\<exists>st1 st2 st3 f2 f3 f4.
     section_loop (\<lambda>r n. Inr (gen_ascii_log ops r n)) sect chnk mm sink
        \<lparr>written = 0, rng = r0, out = []\<rparr> 0 = Inr st1 \<and>
     length (out st1) = sect \<and> written st1 = sect \<and>
     section_loop (gen_structured_records ops) sect chnk mm sink st1 0 = Inr st2 \<and>
     out st2 = out st1 @ f2 \<and> length f2 = sect \<and> written st2 = 2 * sect \<and>
     section_loop (\<lambda>r n. Inr (gen_random_data ops r n)) sect chnk mm sink st2 0 = Inr st3 \<and>
     out st3 = out st2 @ f3 \<and> length f3 = sect \<and> written st3 = 3 * sect \<and>
     mixed_loop ops (target - 3 * sect) blk mm sink st3 0 0 = Inr st \<and>
     out st = out st3 @ f4 \<and> length f4 = target - 3 * sect \<and>
     written st = 3 * sect + (target - 3 * sect)"
proof -
  let ?g1 = "\<lambda>r n. Inr (gen_ascii_log ops r n) :: failure + (byte list \<times> 'a)"
  let ?g3 = "\<lambda>r n. Inr (gen_random_data ops r n) :: failure + (byte list \<times> 'a)"
  let ?st0 = "\<lparr>written = 0, rng = r0, out = []\<rparr>"
  from run obtain st1 st2 st3 where
        s1: "section_loop ?g1 sect chnk mm sink ?st0 0 = Inr st1"
    and s2: "section_loop (gen_structured_records ops) sect chnk mm sink st1 0 = Inr st2"
    and s3: "section_loop ?g3 sect chnk mm sink st2 0 = Inr st3"
    and s4: "mixed_loop ops (target - written st3) blk mm sink st3 0 0 = Inr st"
    by (auto simp: write_sections_def split: sum.splits)
  have e1: "\<forall>r n d r'. ?g1 r n = Inr (d, r') \<longrightarrow> length d = n"
    using length_gen_ascii_log by (metis fst_conv sum.inject(2))
  have e2: "\<forall>r n d r'. gen_structured_records ops r n = Inr (d, r') \<longrightarrow> length d = n"
    by (auto dest: gen_structured_records_length)
  have e3: "\<forall>r n d r'. ?g3 r n = Inr (d, r') \<longrightarrow> length d = n"
    using gen_random_data_length [OF ok] by (metis fst_conv sum.inject(2))
  note c1 = section_loop_chunks [OF s1 e1, simplified]
  from c1 have o1: "length (out st1) = sect" and w1: "written st1 = sect" by auto
  have l1: "length (out st1) = written st1" using o1 w1 by simp
  note c2 = section_loop_chunks [OF s2 e2 l1, simplified]
  from c2 obtain f2 where o2: "out st2 = out st1 @ f2" "length f2 = sect"
    and w2: "written st2 = 2 * sect" using w1 by auto
  have l2: "length (out st2) = written st2" using o1 o2 w2 by simp
  note c3 = section_loop_chunks [OF s3 e3 l2, simplified]
  from c3 obtain f3 where o3: "out st3 = out st2 @ f3" "length f3 = sect"
    and w3: "written st3 = 3 * sect" using w2 by auto
  have l3: "length (out st3) = written st3" using o1 o2 o3 w3 by simp
  note c4 = mixed_loop_chunks [OF s4 ok l3, simplified]
  from c4 obtain f4 where o4: "out st = out st3 @ f4" "length f4 = target - 3 * sect"
    and w4: "written st = 3 * sect + (target - 3 * sect)" using w3 by auto
  from s1 o1 w1 s2 o2 w2 s3 o3 w3 s4 [unfolded w3] o4 w4 show ?thesis by blast
qed

text \<open>
  C2. A run of \<open>main\<close> that completes has written exactly \<open>TARGET_SIZE = 1024^3\<close> bytes, and
  reports that size. The log, record and random loops end at 256, 512 and 768 MiB, the
  mixed loop at \<open>TARGET_SIZE\<close>, each appending to what the one before wrote; and every
  generator returns exactly the number of bytes it is asked for.
\<close>

theorem main_exact_size:
  assumes "rng_ok ops" and "gen_1gb_main ops env = Inr (f, t0, t1, n)"
  shows "length f = TARGET_SIZE \<and> n = TARGET_SIZE \<and> TARGET_SIZE = 1 * 1024 ^ 3 \<and>
    (\<exists>st1 st2 st3 st4 f2 f3 f4.
       section_loop (\<lambda>r n. Inr (gen_ascii_log ops r n)) SECTION_SIZE CHUNK magic_map_1gb
          (sink_ok env) \<lparr>written = 0, rng = seed ops 42, out = []\<rparr> 0 = Inr st1 \<and>
       length (out st1) = SECTION_SIZE \<and> written st1 = SECTION_SIZE \<and>
       section_loop (gen_structured_records ops) SECTION_SIZE CHUNK magic_map_1gb
          (sink_ok env) st1 0 = Inr st2 \<and>
       out st2 = out st1 @ f2 \<and> length f2 = SECTION_SIZE \<and> written st2 = 2 * SECTION_SIZE \<and>
       section_loop (\<lambda>r n. Inr (gen_random_data ops r n)) SECTION_SIZE CHUNK magic_map_1gb
          (sink_ok env) st2 0 = Inr st3 \<and>
       out st3 = out st2 @ f3 \<and> length f3 = SECTION_SIZE \<and> written st3 = 3 * SECTION_SIZE \<and>
       mixed_loop ops (TARGET_SIZE - 3 * SECTION_SIZE) block_size magic_map_1gb
          (sink_ok env) st3 0 0 = Inr st4 \<and>
       out st4 = out st3 @ f4 \<and> length f4 = SECTION_SIZE \<and> written st4 = TARGET_SIZE \<and>
       f = out st4) \<and>
    length (fst (gen_ascii_log ops r k)) = k \<and>
    (\<forall>d r'. gen_structured_records ops r k = Inr (d, r') \<longrightarrow> length d = k) \<and>
    length (fst (gen_random_data ops r k)) = k \<and>
    length (gen_zeros k) = k"
proof -
  from assms(2) obtain st where
    run: "write_sections ops TARGET_SIZE SECTION_SIZE CHUNK block_size magic_map_1gb (sink_ok env)
           (seed ops 42) = Inr st"
    and f: "f = out st" and n: "n = length f"
    by (rule main_run)
  have sz: "3 * SECTION_SIZE + (TARGET_SIZE - 3 * SECTION_SIZE) = TARGET_SIZE"
       "TARGET_SIZE - 3 * SECTION_SIZE = SECTION_SIZE" "TARGET_SIZE = 1 * 1024 ^ 3"
    by (simp_all add: sizes_1gb)
  from write_sections_chunks(1) [OF run assms(1)] f sz have len: "length f = TARGET_SIZE" by simp
  from write_sections_tiles [OF run assms(1)] obtain st1 st2 st3 f2 f3 f4 where
    "section_loop (\<lambda>r n. Inr (gen_ascii_log ops r n)) SECTION_SIZE CHUNK magic_map_1gb
          (sink_ok env) \<lparr>written = 0, rng = seed ops 42, out = []\<rparr> 0 = Inr st1"
    "length (out st1) = SECTION_SIZE" "written st1 = SECTION_SIZE"
    "section_loop (gen_structured_records ops) SECTION_SIZE CHUNK magic_map_1gb
          (sink_ok env) st1 0 = Inr st2"
    "out st2 = out st1 @ f2" "length f2 = SECTION_SIZE" "written st2 = 2 * SECTION_SIZE"
    "section_loop (\<lambda>r n. Inr (gen_random_data ops r n)) SECTION_SIZE CHUNK magic_map_1gb
          (sink_ok env) st2 0 = Inr st3"
    "out st3 = out st2 @ f3" "length f3 = SECTION_SIZE" "written st3 = 3 * SECTION_SIZE"
    "mixed_loop ops (TARGET_SIZE - 3 * SECTION_SIZE) block_size magic_map_1gb
          (sink_ok env) st3 0 0 = Inr st"
    "out st = out st3 @ f4" "length f4 = SECTION_SIZE"
    "written st = TARGET_SIZE"
    unfolding sz(1) unfolding sz(2) by blast
  then have tiles: "\<exists>st1 st2 st3 st4 f2 f3 f4.
       section_loop (\<lambda>r n. Inr (gen_ascii_log ops r n)) SECTION_SIZE CHUNK magic_map_1gb
          (sink_ok env) \<lparr>written = 0, rng = seed ops 42, out = []\<rparr> 0 = Inr st1 \<and>
       length (out st1) = SECTION_SIZE \<and> written st1 = SECTION_SIZE \<and>
       section_loop (gen_structured_records ops) SECTION_SIZE CHUNK magic_map_1gb
          (sink_ok env) st1 0 = Inr st2 \<and>
       out st2 = out st1 @ f2 \<and> length f2 = SECTION_SIZE \<and> written st2 = 2 * SECTION_SIZE \<and>
       section_loop (\<lambda>r n. Inr (gen_random_data ops r n)) SECTION_SIZE CHUNK magic_map_1gb
          (sink_ok env) st2 0 = Inr st3 \<and>
       out st3 = out st2 @ f3 \<and> length f3 = SECTION_SIZE \<and> written st3 = 3 * SECTION_SIZE \<and>
       mixed_loop ops (TARGET_SIZE - 3 * SECTION_SIZE) block_size magic_map_1gb
          (sink_ok env) st3 0 0 = Inr st4 \<and>
       out st4 = out st3 @ f4 \<and> length f4 = SECTION_SIZE \<and> written st4 = TARGET_SIZE \<and>
       f = out st4"
    unfolding sz(2) using f by blast
  have gens: "length (fst (gen_ascii_log ops r k)) = k"
    "\<forall>d r'. gen_structured_records ops r k = Inr (d, r') \<longrightarrow> length d = k"
    "length (fst (gen_random_data ops r k)) = k" "length (gen_zeros k) = k"
    using assms(1)
    by (auto simp: length_gen_ascii_log gen_random_data_length length_gen_zeros
        dest: gen_structured_records_length)
  from len n sz(3) tiles gens show ?thesis by blast
qed

theorem main_exact_size_witness:
  "rng_ok lcg_rng \<and>
   (\<exists>f. gen_1gb_main lcg_rng quiet_world = Inr (f, 0, 1, 1073741824) \<and> length f = 1073741824)"
proof -
  have w: "open_ok quiet_world" "\<forall>n. sink_ok quiet_world n"
    "time_start quiet_world = 0" "time_end quiet_world = 1"
    by (simp_all add: quiet_world_def always_def)
  from main_total [OF rng_ok_lcg w(1,2)] obtain f where
    run: "gen_1gb_main lcg_rng quiet_world = Inr (f, 0, 1, length f)" by (auto simp: w)
  from main_exact_size [OF rng_ok_lcg run] have "length f = 1073741824"
    by (simp add: sizes_1gb)
  with run rng_ok_lcg show ?thesis by auto
qed

subsection \<open>Signature placement\<close>

lemma magic_map_1gb_chunks:
  "list_all (\<lambda>m. 0 \<le> fst m \<and> nat (fst m) < TARGET_SIZE \<and>
       inside (fst (chunk_at TARGET_SIZE SECTION_SIZE CHUNK block_size (nat (fst m))))
              (snd (chunk_at TARGET_SIZE SECTION_SIZE CHUNK block_size (nat (fst m)))) m)
     magic_map_1gb"
  by (simp add: magic_map_1gb_def MAGIC_OFFSETS_def MAGICS_def sizes_1gb chunk_at_def
      inside_def Let_def encode_ascii_def)

text \<open>
  C3. In the file of a completed run of \<open>main\<close>, each of the eleven entries of
  \<open>MAGIC_OFFSETS\<close> is there: the bytes from its offset on, as many as its pattern has, are
  the pattern.
\<close>

theorem main_signatures_planted:
  assumes "rng_ok ops" and "gen_1gb_main ops env = Inr (f, t0, t1, n)"
    and "(offset, name) \<in> set MAGIC_OFFSETS" and "map_of MAGICS name = Some pattern"
  shows "length MAGIC_OFFSETS = 11 \<and> 0 \<le> offset \<and>
         py_slice f (nat offset) (nat offset + length pattern) = pattern"
proof -
  from assms(2) obtain st where
    run: "write_sections ops TARGET_SIZE SECTION_SIZE CHUNK block_size magic_map_1gb (sink_ok env)
           (seed ops 42) = Inr st"
    and f: "f = out st"
    by (rule main_run)
  have len: "length (out st) = TARGET_SIZE"
    using write_sections_chunks(1) [OF run assms(1)] by (simp add: sizes_1gb)
  let ?m = "(offset, pattern)"
  from assms(3,4) have m: "?m \<in> set magic_map_1gb" by (rule magic_map_1gb_mem)
  obtain w k where c: "chunk_at TARGET_SIZE SECTION_SIZE CHUNK block_size (nat (fst ?m)) = (w, k)"
    by (cases "chunk_at TARGET_SIZE SECTION_SIZE CHUNK block_size (nat (fst ?m))")
  from m magic_map_1gb_chunks c have pos: "0 \<le> fst ?m" "nat (fst ?m) < length (out st)"
    and ins: "inside w k ?m"
    unfolding list_all_iff len by fastforce+
  have "length MAGIC_OFFSETS = 11" by (simp add: MAGIC_OFFSETS_def)
  with planted_in_file [OF run assms(1) m no_overlap_1gb pos c ins] pos(1) f
  show ?thesis by simp
qed

theorem main_signatures_planted_witness:
  "\<exists>f. gen_1gb_main lcg_rng quiet_world = Inr (f, 0, 1, length f) \<and>
       py_slice f 349175808 349175824 =
         [0xFF, 0xD8, 0xFF, 0xE0, 0, 0, 0, 0, 0, 0, 0, 0, 0, 0, 0, 0] \<and>
       py_slice f 104857600 104857615 =
         [0x25, 0x50, 0x44, 0x46, 0x2D, 0x31, 0x2E, 0x37, 0x0A, 0, 0, 0, 0, 0, 0]"
proof -
  have w: "open_ok quiet_world" "\<forall>n. sink_ok quiet_world n"
    "time_start quiet_world = 0" "time_end quiet_world = 1"
    by (simp_all add: quiet_world_def always_def)
  from main_total [OF rng_ok_lcg w(1,2)] obtain f where
    run: "gen_1gb_main lcg_rng quiet_world = Inr (f, 0, 1, length f)" by (auto simp: w)
  have j: "(333 * 1024 * 1024, ''JPEG'') \<in> set MAGIC_OFFSETS"
    and p: "(100 * 1024 * 1024, ''PDF'') \<in> set MAGIC_OFFSETS"
    by (simp_all add: MAGIC_OFFSETS_def)
  have jm: "map_of MAGICS ''JPEG'' = Some [0xFF, 0xD8, 0xFF, 0xE0, 0, 0, 0, 0, 0, 0, 0, 0, 0, 0, 0, 0]"
    and pm: "map_of MAGICS ''PDF'' =
      Some [0x25, 0x50, 0x44, 0x46, 0x2D, 0x31, 0x2E, 0x37, 0x0A, 0, 0, 0, 0, 0, 0]"
    by (simp_all add: MAGICS_def encode_ascii_def numeral_eq_Suc)
  from main_signatures_planted [OF rng_ok_lcg run j jm] main_signatures_planted [OF rng_ok_lcg run p pm] run
  show ?thesis by (intro exI [of _ f]) simp
qed

subsection \<open>The file does not depend on the world\<close>

lemma section_loop_sink:
  assumes "section_loop gen sect chnk mm sink st sw = Inr st'"
  shows "section_loop gen sect chnk mm always st sw = Inr st'"
  using assms
proof (induction gen sect chnk mm sink st sw rule: section_loop.induct)
  case (1 gen sect chnk mm sink st sw)
  show ?case
  proof (cases "sw < sect")
    case False
    with "1.prems" have "st' = st"
      by (simp add: section_loop.simps [of gen sect chnk mm sink st sw])
    with False show ?thesis
      by (simp add: section_loop.simps [of gen sect chnk mm always st sw])
  next
    case True
    define cs where "cs = min chnk (sect - sw)"
    from "1.prems"(1) True obtain d r1 f1 where g: "gen (rng st) cs = Inr (d, r1)"
      and w: "f_write sink (out st) (plant_magics mm (written st) d) = Inr f1"
      and cs0: "cs \<noteq> 0"
      and rec: "section_loop gen sect chnk mm sink
                  \<lparr>written = written st + cs, rng = r1, out = f1\<rparr> (sw + cs) = Inr st'"
      by (simp add: section_loop.simps [of gen sect chnk mm sink st sw] Let_def cs_def
          split: sum.splits prod.splits if_splits)
    from w have w': "f_write always (out st) (plant_magics mm (written st) d) = Inr f1"
      by (simp add: f_write_def always_def split: if_splits)
    have "section_loop gen sect chnk mm always
                  \<lparr>written = written st + cs, rng = r1, out = f1\<rparr> (sw + cs) = Inr st'"
      using True g w cs0 rec
      by (intro "1.IH" [of cs "(d, r1)" d r1 f1]) (simp_all add: cs_def)
    with True g w' cs0 show ?thesis
      by (simp add: section_loop.simps [of gen sect chnk mm always st sw] Let_def cs_def [symmetric])
  qed
qed

lemma mixed_loop_sink:
  assumes "mixed_loop ops remaining blk mm sink st sw idx = Inr st'"
  shows "mixed_loop ops remaining blk mm always st sw idx = Inr st'"
  using assms
proof (induction ops remaining blk mm sink st sw idx rule: mixed_loop.induct)
  case (1 ops remaining blk mm sink st sw idx)
  show ?case
  proof (cases "sw < remaining")
    case False
    with "1.prems" have "st' = st"
      by (simp add: mixed_loop.simps [of ops remaining blk mm sink st sw idx])
    with False show ?thesis
      by (simp add: mixed_loop.simps [of ops remaining blk mm always st sw idx])
  next
    case True
    define cs where "cs = min blk (remaining - sw)"
    define dr where "dr = (if idx mod 2 = 0 then (gen_zeros cs, rng st)
                           else gen_random_data ops (rng st) cs)"
    obtain d r1 where dr: "dr = (d, r1)" by (cases dr)
    from "1.prems"(1) True dr obtain f1 where
          w: "f_write sink (out st) (plant_magics mm (written st) d) = Inr f1"
      and cs0: "cs \<noteq> 0"
      and rec: "mixed_loop ops remaining blk mm sink
                  \<lparr>written = written st + cs, rng = r1, out = f1\<rparr> (sw + cs) (idx + 1) = Inr st'"
      by (simp add: mixed_loop.simps [of ops remaining blk mm sink st sw idx] Let_def
          cs_def [symmetric] dr_def [symmetric] split: sum.splits if_splits)
    from w have w': "f_write always (out st) (plant_magics mm (written st) d) = Inr f1"
      by (simp add: f_write_def always_def split: if_splits)
    have "mixed_loop ops remaining blk mm always
                  \<lparr>written = written st + cs, rng = r1, out = f1\<rparr> (sw + cs) (idx + 1) = Inr st'"
      using True dr w cs0 rec
      by (intro "1.IH" [of cs "(d, r1)" d r1 f1]) (simp_all add: cs_def dr_def)
    with True dr w' cs0 show ?thesis
      by (simp add: mixed_loop.simps [of ops remaining blk mm always st sw idx] Let_def
          cs_def [symmetric] dr_def [symmetric])
  qed
qed

lemma write_sections_sink:
  assumes "write_sections ops target sect chnk blk mm sink r0 = Inr st"
  shows "write_sections ops target sect chnk blk mm always r0 = Inr st"
proof -
  let ?g1 = "\<lambda>r n. Inr (gen_ascii_log ops r n) :: failure + (byte list \<times> 'a)"
  let ?g3 = "\<lambda>r n. Inr (gen_random_data ops r n) :: failure + (byte list \<times> 'a)"
  let ?st0 = "\<lparr>written = 0, rng = r0, out = []\<rparr>"
  from assms obtain st1 st2 st3 where
        s1: "section_loop ?g1 sect chnk mm sink ?st0 0 = Inr st1"
    and s2: "section_loop (gen_structured_records ops) sect chnk mm sink st1 0 = Inr st2"
    and s3: "section_loop ?g3 sect chnk mm sink st2 0 = Inr st3"
    and s4: "mixed_loop ops (target - written st3) blk mm sink st3 0 0 = Inr st"
    by (auto simp: write_sections_def split: sum.splits)
  from section_loop_sink [OF s1] section_loop_sink [OF s2] section_loop_sink [OF s3]
    mixed_loop_sink [OF s4]
  show ?thesis by (simp add: write_sections_def)
qed

text \<open>
  C1. The file of a completed run of \<open>main\<close> is the same in every world: whatever the clock
  reads and however the sink behaves, two runs that complete with the same generator,
  seeded with 42, have written the same bytes. Only the clock readings in the report differ.
\<close>

theorem main_deterministic:
  assumes "gen_1gb_main ops env1 = Inr (f1, a1, b1, n1)"
    and "gen_1gb_main ops env2 = Inr (f2, a2, b2, n2)"
  shows "f1 = f2 \<and> n1 = n2"
proof -
  from assms(1) obtain st1 where
    r1: "write_sections ops TARGET_SIZE SECTION_SIZE CHUNK block_size magic_map_1gb (sink_ok env1)
           (seed ops 42) = Inr st1" and f1: "f1 = out st1" "n1 = length f1"
    by (rule main_run)
  from assms(2) obtain st2 where
    r2: "write_sections ops TARGET_SIZE SECTION_SIZE CHUNK block_size magic_map_1gb (sink_ok env2)
           (seed ops 42) = Inr st2" and f2: "f2 = out st2" "n2 = length f2"
    by (rule main_run)
  from write_sections_sink [OF r1] write_sections_sink [OF r2] have "st1 = st2" by simp
  with f1 f2 show ?thesis by simp
qed

theorem main_deterministic_witness:
  "\<exists>f. gen_1gb_main lcg_rng quiet_world = Inr (f, 0, 1, length f) \<and>
       gen_1gb_main lcg_rng late_world = Inr (f, 1000, 1060, length f)"
proof -
  have w: "open_ok quiet_world" "\<forall>n. sink_ok quiet_world n"
    "time_start quiet_world = 0" "time_end quiet_world = 1"
    by (simp_all add: quiet_world_def always_def)
  have l: "open_ok late_world" "\<forall>n. sink_ok late_world n"
    "time_start late_world = 1000" "time_end late_world = 1060"
    by (simp_all add: late_world_def always_def)
  from main_total [OF rng_ok_lcg w(1,2)] obtain f where
    run1: "gen_1gb_main lcg_rng quiet_world = Inr (f, 0, 1, length f)" by (auto simp: w)
  from main_total [OF rng_ok_lcg l(1,2)] obtain g where
    run2: "gen_1gb_main lcg_rng late_world = Inr (g, 1000, 1060, length g)" by (auto simp: l)
  from main_deterministic [OF run1 run2] have "f = g" by simp
  with run1 run2 show ?thesis by auto
qed

subsection \<open>Zero blocks\<close>

lemma zero_block_file:
  assumes run: "write_sections ops target sect chnk blk mm sink r0 = Inr st" and ok: "rng_ok ops"
    and lo: "3 * sect \<le> p" and p: "p < length (out st)"
    and ev: "((p - 3 * sect) div blk) mod 2 = 0"
    and c: "chunk_at target sect chnk blk p = (w, n)"
  shows "py_slice (out st) w (w + n) = plant_magics mm w (gen_zeros n)"
proof -
  note len = write_sections_chunks(1) [OF run ok]
  define k where "k = (p - 3 * sect) div blk"
  from lo have np: "\<not> p < 3 * sect" by simp
  with p len have lt: "3 * sect < target" by simp
  from p len lo have q: "p - 3 * sect < target - 3 * sect" by simp
  have "k * blk \<le> p - 3 * sect" by (simp add: k_def)
  with q have k: "k * blk < target - 3 * sect" by simp
  from c np have "(3 * sect + k * blk, min blk (target - 3 * sect - k * blk)) = (w, n)"
    by (simp only: chunk_at_def Let_def k_def if_False)
  then have w: "w = 3 * sect + k * blk" and n: "n = min blk (target - 3 * sect - k * blk)"
    by (simp_all only: prod.inject)
  from write_sections_chunks(6) [OF run ok k] obtain d where
    d: "if k mod 2 = 0 then d = gen_zeros n else (\<exists>r r'. gen_random_data ops r n = (d, r'))"
    and sl: "py_slice (out st) w (w + n) = plant_magics mm w d"
    unfolding w n by blast
  from d ev have "d = gen_zeros n" by (simp add: k_def)
  with sl show ?thesis by simp
qed

lemma zero_block_byte:
  assumes run: "write_sections ops target sect chnk blk mm sink r0 = Inr st" and ok: "rng_ok ops"
    and lo: "3 * sect \<le> p" and p: "p < length (out st)"
    and ev: "((p - 3 * sect) div blk) mod 2 = 0"
    and free: "\<forall>m\<in>set mm. \<not> covers m (int p)"
  shows "out st ! p = 0"
proof -
  obtain w n where c: "chunk_at target sect chnk blk p = (w, n)"
    by (cases "chunk_at target sect chnk blk p")
  note b = chunk_at_file(2-4) [OF run ok p c]
  from zero_block_file [OF run ok lo p ev c]
  have sl: "py_slice (out st) w (w + n) = plant_magics mm w (gen_zeros n)" .
  have "out st ! p = py_slice (out st) w (w + n) ! (p - w)"
    using b by (simp add: nth_slice)
  also have "\<dots> = plant_magics mm w (gen_zeros n) ! (p - w)" by (simp add: sl)
  also have "\<dots> = gen_zeros n ! (p - w)"
  proof (rule plant_magics_nth)
    show "p - w < length (gen_zeros n)" using b by (simp add: length_gen_zeros)
    show "\<forall>m\<in>set mm. inside w (length (gen_zeros n)) m \<longrightarrow> \<not> covers m (int w + int (p - w))"
      using free b by simp
  qed
  also have "\<dots> = 0" using b by (simp add: gen_zeros_def)
  finally show ?thesis .
qed

lemma mixed_loop_zero_step:
  assumes "section_written < remaining" "0 < blk" "block_idx mod 2 = 0" "sink (length (out st))"
  shows "mixed_loop ops remaining blk mm sink st section_written block_idx =
         mixed_loop ops remaining blk mm sink
           \<lparr>written = written st + min blk (remaining - section_written),
            rng = rng st,
            out = out st @ plant_magics mm (written st) (gen_zeros (min blk (remaining - section_written)))\<rparr>
           (section_written + min blk (remaining - section_written)) (block_idx + 1)"
proof -
  from assms have "min blk (remaining - section_written) = 0 \<longleftrightarrow> False" by simp
  with assms show ?thesis
    by (subst mixed_loop.simps) (simp only: Let_def f_write_def if_True if_False
      split: prod.splits, simp)
qed

text \<open>
  C8. \<open>gen_zeros\<close> returns the requested number of zero bytes. A zero block of the mixed
  section leaves the generator state as it was: the loop continues with the same \<open>rng\<close>.
  In the file of a completed run of \<open>main\<close>, every byte of an even-numbered block of the
  last section that lies in no planted span is 0.
\<close>

theorem zero_profile:
  assumes "rng_ok ops" and "gen_1gb_main ops env = Inr (f, t0, t1, n)"
    and "3 * SECTION_SIZE \<le> p" and "p < TARGET_SIZE"
    and "((p - 3 * SECTION_SIZE) div block_size) mod 2 = 0"
    and "\<forall>m\<in>set magic_map_1gb. \<not> covers m (int p)"
  shows "f ! p = 0 \<and>
         gen_zeros k = replicate k 0 \<and> length (gen_zeros k) = k \<and>
         (section_written < remaining \<and> 0 < blk \<and> block_idx mod 2 = 0 \<and> sink (length (out st)) \<longrightarrow>
          mixed_loop ops remaining blk mm sink st section_written block_idx =
          mixed_loop ops remaining blk mm sink
            \<lparr>written = written st + min blk (remaining - section_written),
             rng = rng st,
             out = out st @ plant_magics mm (written st) (gen_zeros (min blk (remaining - section_written)))\<rparr>
            (section_written + min blk (remaining - section_written)) (block_idx + 1))"
proof -
  from assms(2) obtain s where
    run: "write_sections ops TARGET_SIZE SECTION_SIZE CHUNK block_size magic_map_1gb (sink_ok env)
           (seed ops 42) = Inr s"
    and f: "f = out s"
    by (rule main_run)
  have len: "length (out s) = TARGET_SIZE"
    using write_sections_chunks(1) [OF run assms(1)] by (simp add: sizes_1gb)
  from assms(4) len have p: "p < length (out s)" by simp
  from zero_block_byte [OF run assms(1,3) p assms(5,6)] f have "f ! p = 0" by simp
  then show ?thesis
    using mixed_loop_zero_step [of section_written remaining blk block_idx sink st ops mm]
    by (simp add: gen_zeros_def)
qed

theorem zero_profile_witness:
  "\<exists>f. gen_1gb_main lcg_rng quiet_world = Inr (f, 0, 1, length f) \<and>
       f ! 805306368 = 0 \<and> f ! 943718416 = 0 \<and> gen_zeros 3 = [0, 0, 0]"
proof -
  have w: "open_ok quiet_world" "\<forall>n. sink_ok quiet_world n"
    "time_start quiet_world = 0" "time_end quiet_world = 1"
    by (simp_all add: quiet_world_def always_def)
  from main_total [OF rng_ok_lcg w(1,2)] obtain f where
    run: "gen_1gb_main lcg_rng quiet_world = Inr (f, 0, 1, length f)" by (auto simp: w)
  have free: "\<forall>m\<in>set magic_map_1gb. \<not> covers m (int 805306368)"
    "\<forall>m\<in>set magic_map_1gb. \<not> covers m (int 943718416)"
    by (simp_all add: magic_map_1gb_def MAGIC_OFFSETS_def MAGICS_def sizes_1gb covers_def
        encode_ascii_def)
  have a: "f ! 805306368 = 0"
    using zero_profile [OF rng_ok_lcg run _ _ _ free(1)] by (simp add: sizes_1gb)
  have b: "f ! 943718416 = 0 \<and> gen_zeros 3 = replicate 3 0"
    using zero_profile [OF rng_ok_lcg run _ _ _ free(2), of 3] by (simp add: sizes_1gb)
  then have c: "gen_zeros 3 = [0, 0, 0]" by (simp add: numeral_3_eq_3)
  from run a b c show ?thesis by (intro exI [of _ f]) simp
qed

subsection \<open>Records\<close>

lemma record_step_bytes:
  assumes "rng_ok ops" "record_step ops rec_id r = Inr (bs, r')"
  shows "\<exists>j v p. 0 \<le> j \<and> j \<le> 50 \<and> length p = 16 \<and>
           bs = le_bytes 4 rec_id @ le_bytes 8 (1700000000 + rec_id * 100 + j) @ le_bytes 4 v @ p"
proof -
  obtain j r1 where j: "randint ops 0 50 r = (j, r1)" by (cases "randint ops 0 50 r")
  obtain v r2 where v: "randint ops 0 1000000 r1 = (v, r2)" by (cases "randint ops 0 1000000 r1")
  obtain p r3 where p: "rand_payload ops 16 r2 = (p, r3)" by (cases "rand_payload ops 16 r2")
  from assms(1) have "0 \<le> fst (randint ops 0 50 r) \<and> fst (randint ops 0 50 r) \<le> 50"
    unfolding rng_ok_def by (metis zero_le_numeral)
  with j have jr: "0 \<le> j" "j \<le> 50" by simp_all
  from p have lp: "length p = 16" by (rule rand_payload_length)
  from assms(2) j v p
  have "bs = le_bytes 4 rec_id @ le_bytes 8 (1700000000 + rec_id * 100 + j) @ le_bytes 4 v @ p"
    by (simp add: record_step_def pack_IqI_def split: if_splits)
  with jr lp show ?thesis by blast
qed

lemma record_at_append:
  assumes "32 * (i + 1) \<le> length buf"
  shows "record_at (buf @ bs) i = record_at buf i"
  using assms by (simp add: record_at_def slice_append_left)

lemma record_at_last:
  assumes "length buf = 32 * i" "0 \<le> j" "j \<le> 50" 
  shows "record_at (buf @ le_bytes 4 (int i) @ le_bytes 8 (1700000000 + int i * 100 + j) @ rest) i"
proof -
  have a: "py_slice (buf @ le_bytes 4 (int i) @ le_bytes 8 (1700000000 + int i * 100 + j) @ rest)
             (32 * i) (32 * i + 4) = le_bytes 4 (int i)"
    using assms(1) by (simp add: py_slice_def length_le_bytes)
  have b: "py_slice (buf @ le_bytes 4 (int i) @ le_bytes 8 (1700000000 + int i * 100 + j) @ rest)
             (32 * i + 4) (32 * i + 12) = le_bytes 8 (1700000000 + int i * 100 + j)"
    using assms(1) by (simp add: py_slice_def length_le_bytes)
  from a b assms(2,3) show ?thesis unfolding record_at_def by blast
qed

lemma records_loop_records:
  assumes "rng_ok ops" "records_loop ops sz buf rec_id r = Inr (buf', r')"
    and "int (length buf) = 32 * rec_id"
    and "\<forall>i. 32 * (i + 1) \<le> length buf \<longrightarrow> record_at buf i"
  shows "\<forall>i. 32 * (i + 1) \<le> length buf' \<longrightarrow> record_at buf' i"
  using assms
proof (induction ops sz buf rec_id r rule: records_loop.induct)
  case (1 ops sz buf rec_id r)
  show ?case
  proof (cases "length buf < sz")
    case False
    with "1.prems"(2) have "buf' = buf" by (simp add: records_loop.simps [of ops sz buf])
    with "1.prems"(4) show ?thesis by simp
  next
    case True
    with "1.prems"(2) obtain bs r1 where st: "record_step ops rec_id r = Inr (bs, r1)"
      and rec: "records_loop ops sz (buf @ bs) (rec_id + 1) r1 = Inr (buf', r')"
      by (simp add: records_loop.simps [of ops sz buf] split: sum.splits prod.splits)
    from st have lb: "length bs = 32" by (rule record_step_length)
    define k where "k = nat rec_id"
    from "1.prems"(3) have k: "rec_id = int k" "length buf = 32 * k" by (auto simp: k_def)
    from record_step_bytes [OF "1.prems"(1) st] obtain j v p where
      j: "0 \<le> j" "j \<le> 50" and
      bs: "bs = le_bytes 4 rec_id @ le_bytes 8 (1700000000 + rec_id * 100 + j) @ le_bytes 4 v @ p"
      by blast
    have inv: "\<forall>i. 32 * (i + 1) \<le> length (buf @ bs) \<longrightarrow> record_at (buf @ bs) i"
    proof (intro allI impI)
      fix i assume i: "32 * (i + 1) \<le> length (buf @ bs)"
      with k lb have "i \<le> k" by simp
      then consider "i < k" | "i = k" by linarith
      then show "record_at (buf @ bs) i"
      proof cases
        case 1
        with k have "32 * (i + 1) \<le> length buf" by simp
        with "1.prems"(4) show ?thesis by (simp add: record_at_append)
      next
        case 2
        from k(2) j have "record_at (buf @ le_bytes 4 (int k)
            @ le_bytes 8 (1700000000 + int k * 100 + j) @ (le_bytes 4 v @ p)) k"
          by (rule record_at_last)
        with 2 show ?thesis unfolding bs k(1) by simp
      qed
    qed
    have "int (length (buf @ bs)) = 32 * (rec_id + 1)" using lb "1.prems"(3) by simp
    with True st rec "1.prems"(1) inv show ?thesis
      by (intro "1.IH" [of "(bs, r1)" bs r1]) auto
  qed
qed

lemma gen_structured_records_records:
  assumes "rng_ok ops" "gen_structured_records ops r sz = Inr (d, r')" "32 * (i + 1) \<le> sz"
  shows "record_at d i"
proof -
  from assms(2) obtain buf where l: "records_loop ops sz [] 0 r = Inr (buf, r')"
    and d: "d = take sz buf"
    by (auto simp: gen_structured_records_def split: sum.splits prod.splits)
  from l have le: "sz \<le> length buf" by (rule records_loop_length)
  from records_loop_records [OF assms(1) l] assms(3) le have "record_at buf i" by simp
  moreover have "py_slice (take sz buf) a b = py_slice buf a b" if "b \<le> sz" for a b
  proof -
    from that have "min (b - a) (sz - a) = b - a" by simp
    then have "take (b - a) (take (sz - a) (drop a buf)) = take (b - a) (drop a buf)" by simp
    then show ?thesis by (simp add: py_slice_def drop_take)
  qed
  ultimately show ?thesis using assms(3) unfolding d record_at_def by simp
qed

lemma plant_magics_slice_clear:
  assumes "b \<le> length chunk" "clear mm (w + a) (w + b)"
  shows "py_slice (plant_magics mm w chunk) a b = py_slice chunk a b"
proof (rule slice_cong)
  show "length (plant_magics mm w chunk) = length chunk" by (rule length_plant_magics)
  show "b \<le> length (plant_magics mm w chunk)" using assms(1) by (simp add: length_plant_magics)
next
  fix k assume k: "a \<le> k" "k < b"
  show "plant_magics mm w chunk ! k = chunk ! k"
  proof (rule plant_magics_nth)
    show "k < length chunk" using k assms(1) by simp
    show "\<forall>m\<in>set mm. inside w (length chunk) m \<longrightarrow> \<not> covers m (int w + int k)"
    proof (intro ballI impI)
      fix m assume "m \<in> set mm"
      with assms(2) have "fst m + int (length (snd m)) \<le> int (w + a) \<or> int (w + b) \<le> fst m"
        by (simp add: clear_def list_all_iff)
      with k show "\<not> covers m (int w + int k)" unfolding covers_def by linarith
    qed
  qed
qed

lemma record_in_file:
  assumes run: "write_sections ops target sect chnk blk mm sink r0 = Inr st" and ok: "rng_ok ops"
    and k: "k * chnk < sect" and i: "32 * (i + 1) \<le> min chnk (sect - k * chnk)"
    and cl: "clear mm (sect + k * chnk + 32 * i) (sect + k * chnk + 32 * i + 12)"
  shows "py_slice (out st) (sect + k * chnk + 32 * i) (sect + k * chnk + 32 * i + 4)
           = le_bytes 4 (int i) \<and>
         (\<exists>j. 0 \<le> j \<and> j \<le> 50 \<and>
            py_slice (out st) (sect + k * chnk + 32 * i + 4) (sect + k * chnk + 32 * i + 12)
              = le_bytes 8 (1700000000 + int i * 100 + j))"
proof -
  let ?w = "sect + k * chnk"
  let ?n = "min chnk (sect - k * chnk)"
  from write_sections_chunks(4) [OF run ok k] obtain r d r' where
    g: "gen_structured_records ops r ?n = Inr (d, r')"
    and sl: "py_slice (out st) ?w (?w + ?n) = plant_magics mm ?w d"
    by blast
  from g have ld: "length d = ?n" by (rule gen_structured_records_length)
  from gen_structured_records_records [OF ok g i] have rec: "record_at d i" .
  have cl1: "clear mm (?w + 32 * i) (?w + (32 * i + 4))"
    and cl2: "clear mm (?w + (32 * i + 4)) (?w + (32 * i + 12))"
    using cl by (auto simp: clear_def list_all_iff add.assoc)
  have in_chunk: "py_slice (out st) (?w + a) (?w + b) = py_slice d a b"
    if "b \<le> ?n" "clear mm (?w + a) (?w + b)" for a b
  proof -
    from that(1) have "?w + b \<le> ?w + ?n" by simp
    then have "py_slice (out st) (?w + a) (?w + b) = py_slice (py_slice (out st) ?w (?w + ?n)) a b"
      by (simp only: slice_slice)
    also have "\<dots> = py_slice d a b"
      unfolding sl using that ld by (intro plant_magics_slice_clear) simp_all
    finally show ?thesis .
  qed
  from i have b1: "32 * i + 4 \<le> ?n" and b2: "32 * i + 12 \<le> ?n" by simp_all
  from in_chunk [OF b1 cl1] in_chunk [OF b2 cl2] rec
  show ?thesis unfolding record_at_def by (simp add: add.assoc)
qed

lemma clear_examples_1gb:
  "clear magic_map_1gb 272629760 272629772" "clear magic_map_1gb 272629824 272629836"
  by (simp_all add: clear_def magic_map_1gb_def MAGIC_OFFSETS_def MAGICS_def sizes_1gb
      encode_ascii_def)

lemma le_bytes_examples:
  "le_bytes 4 0 = [0, 0, 0, 0]" "le_bytes 4 131072 = [0, 0, 2, 0]"
  "le_bytes 4 2 = [2, 0, 0, 0]"
  "le_bytes 4 ((349175808 - 268435456) div 32) = [0, 128, 38, 0]"
  by code_simp+

lemma quiet_world_simps:
  "open_ok quiet_world" "\<forall>n. sink_ok quiet_world n"
  "time_start quiet_world = 0" "time_end quiet_world = 1"
  by (simp_all add: quiet_world_def always_def)

lemma quiet_run:
  obtains f st where "gen_1gb_main lcg_rng quiet_world = Inr (f, 0, 1, length f)"
    and "write_sections lcg_rng TARGET_SIZE SECTION_SIZE CHUNK block_size magic_map_1gb
           (sink_ok quiet_world) (seed lcg_rng 42) = Inr st"
    and "f = out st" and "file_of (gen_1gb_main lcg_rng quiet_world) = f"
    and "length f = 1073741824"
proof -
  from main_total [OF rng_ok_lcg quiet_world_simps(1,2)] obtain f where
    run: "gen_1gb_main lcg_rng quiet_world = Inr (f, 0, 1, length f)"
    by (auto simp: quiet_world_simps)
  then have f: "file_of (gen_1gb_main lcg_rng quiet_world) = f" by (simp add: file_of_def)
  from run obtain st where
    ws: "write_sections lcg_rng TARGET_SIZE SECTION_SIZE CHUNK block_size magic_map_1gb
           (sink_ok quiet_world) (seed lcg_rng 42) = Inr st"
    and fs: "f = out st"
    by (rule main_run)
  have "length (out st) = 1073741824"
    using write_sections_chunks(1) [OF ws rng_ok_lcg] by (simp add: sizes_1gb)
  with run ws fs f show ?thesis by (intro that [of f st]) simp_all
qed

text \<open>
  C6 fails as stated. In the file of the run with the stand-in generator, the record number
  131072 of the record section (at 256 MiB + 4 MiB, where the second chunk begins) has the
  id 0, not 131072; and the record at 333 MiB starts with the JPEG pattern, not with its id.
\<close>

theorem record_ids_counterexample:
  "py_slice (file_of (gen_1gb_main lcg_rng quiet_world)) 272629760 272629764 = [0, 0, 0, 0] \<and>
   le_bytes 4 131072 = [0, 0, 2, 0] \<and>
   py_slice (file_of (gen_1gb_main lcg_rng quiet_world)) 349175808 349175812
     = [0xFF, 0xD8, 0xFF, 0xE0] \<and>
   le_bytes 4 ((349175808 - 268435456) div 32) = [0, 128, 38, 0]"
proof -
  obtain f st where
    ws: "write_sections lcg_rng TARGET_SIZE SECTION_SIZE CHUNK block_size magic_map_1gb
           (sink_ok quiet_world) (seed lcg_rng 42) = Inr st"
    and fs: "f = out st" and f: "file_of (gen_1gb_main lcg_rng quiet_world) = f"
    and len: "length f = 1073741824"
    by (rule quiet_run)
  have k: "1 * CHUNK < SECTION_SIZE" by (simp add: sizes_1gb)
  have i: "32 * (0 + 1) \<le> min CHUNK (SECTION_SIZE - 1 * CHUNK)" by (simp add: sizes_1gb)
  have e: "SECTION_SIZE + 1 * CHUNK + 32 * 0 = 272629760" by (simp add: sizes_1gb)
  have cl: "clear magic_map_1gb (SECTION_SIZE + 1 * CHUNK + 32 * 0) (SECTION_SIZE + 1 * CHUNK + 32 * 0 + 12)"
    unfolding e using clear_examples_1gb(1) by simp
  from record_in_file [OF ws rng_ok_lcg k i cl, THEN conjunct1]
  have a: "py_slice f 272629760 272629764 = [0, 0, 0, 0]"
    unfolding e fs by (simp add: le_bytes_examples)
  let ?p = "[0xFF, 0xD8, 0xFF, 0xE0, 0, 0, 0, 0, 0, 0, 0, 0, 0, 0, 0, 0] :: byte list"
  let ?m = "(349175808, ?p) :: int \<times> byte list"
  have j: "(349175808, ''JPEG'') \<in> set MAGIC_OFFSETS" by (simp add: MAGIC_OFFSETS_def)
  have jm: "map_of MAGICS ''JPEG'' = Some ?p"
    by (simp add: MAGICS_def encode_ascii_def numeral_eq_Suc)
  from j jm have m: "?m \<in> set magic_map_1gb" by (rule magic_map_1gb_mem)
  have c: "chunk_at TARGET_SIZE SECTION_SIZE CHUNK block_size (nat (fst ?m)) = (348127232, 4194304)"
    by (simp add: chunk_at_def sizes_1gb Let_def)
  have p1: "0 \<le> fst ?m" by simp
  have p2: "nat (fst ?m) < length (out st)" using len fs by simp
  have p3: "inside 348127232 4194304 ?m" by (simp add: inside_def)
  from planted_in_file [OF ws rng_ok_lcg m no_overlap_1gb p1 p2 c p3]
  have "py_slice f 349175808 349175824 = ?p" by (simp add: fs)
  moreover have "py_slice (py_slice f 349175808 349175824) 0 4 = py_slice f (349175808 + 0) (349175808 + 4)"
    by (rule slice_slice) simp
  moreover have "py_slice ?p 0 4 = [0xFF, 0xD8, 0xFF, 0xE0]" by (simp add: py_slice_def)
  ultimately have b: "py_slice f 349175808 349175812 = [0xFF, 0xD8, 0xFF, 0xE0]" by simp
  from a b le_bytes_examples(2,4) show ?thesis unfolding f by simp
qed

text \<open>
  C6 as amended. In the file of a completed run of \<open>main\<close>, take the chunk \<open>k\<close> (of 64) of
  the record section and the record \<open>i\<close> (of 131072) in it. If no planted span meets its
  first 12 bytes, its id is \<open>i\<close>, the index of the record in its chunk, and its timestamp is
  \<open>1700000000 + i * 100 + jitter\<close> with a jitter from 0 to 50.
\<close>

theorem main_records:
  assumes "rng_ok ops" and "gen_1gb_main ops env = Inr (f, t0, t1, n)"
    and "k < 64" and "i < 131072"
    and "clear magic_map_1gb (SECTION_SIZE + k * CHUNK + 32 * i)
                             (SECTION_SIZE + k * CHUNK + 32 * i + 12)"
  shows "py_slice f (SECTION_SIZE + k * CHUNK + 32 * i) (SECTION_SIZE + k * CHUNK + 32 * i + 4)
           = le_bytes 4 (int i) \<and>
         (\<exists>j. 0 \<le> j \<and> j \<le> 50 \<and>
            py_slice f (SECTION_SIZE + k * CHUNK + 32 * i + 4)
                       (SECTION_SIZE + k * CHUNK + 32 * i + 12)
              = le_bytes 8 (1700000000 + int i * 100 + j))"
proof -
  from assms(2) obtain st where
    run: "write_sections ops TARGET_SIZE SECTION_SIZE CHUNK block_size magic_map_1gb (sink_ok env)
           (seed ops 42) = Inr st"
    and f: "f = out st"
    by (rule main_run)
  from assms(3) have k: "k * CHUNK < SECTION_SIZE" by (simp add: sizes_1gb)
  then have "min CHUNK (SECTION_SIZE - k * CHUNK) = CHUNK" by (simp add: sizes_1gb)
  with assms(4) have i: "32 * (i + 1) \<le> min CHUNK (SECTION_SIZE - k * CHUNK)"
    by (simp add: sizes_1gb)
  from record_in_file [OF run assms(1) k i assms(5)] show ?thesis unfolding f .
qed

theorem main_records_witness:
  "\<exists>f. gen_1gb_main lcg_rng quiet_world = Inr (f, 0, 1, length f) \<and>
       py_slice f 272629824 272629828 = [2, 0, 0, 0]"
proof -
  obtain f where run: "gen_1gb_main lcg_rng quiet_world = Inr (f, 0, 1, length f)"
    by (rule quiet_run)
  have e: "SECTION_SIZE + 1 * CHUNK + 32 * 2 = 272629824" by (simp add: sizes_1gb)
  have cl: "clear magic_map_1gb (SECTION_SIZE + 1 * CHUNK + 32 * 2) (SECTION_SIZE + 1 * CHUNK + 32 * 2 + 12)"
    unfolding e using clear_examples_1gb(2) by simp
  have "py_slice f (SECTION_SIZE + 1 * CHUNK + 32 * 2) (SECTION_SIZE + 1 * CHUNK + 32 * 2 + 4)
           = le_bytes 4 (int 2)"
    by (rule main_records [OF rng_ok_lcg run _ _ cl, THEN conjunct1]) simp_all
  then have "py_slice f 272629824 272629828 = [2, 0, 0, 0]"
    unfolding e by (simp add: le_bytes_examples)
  with run show ?thesis by blast
qed

subsection \<open>Chunk boundaries\<close>

lemma section_loop_step:
  assumes "sw < sect" "0 < chnk" "sink (length (out st))"
    and "gen (rng st) (min chnk (sect - sw)) = Inr (d, r')"
  shows "section_loop gen sect chnk mm sink st sw =
         section_loop gen sect chnk mm sink
           \<lparr>written = written st + min chnk (sect - sw), rng = r',
            out = out st @ plant_magics mm (written st) d\<rparr>
           (sw + min chnk (sect - sw))"
proof -
  from assms(1,2) have "min chnk (sect - sw) = 0 \<longleftrightarrow> False" by simp
  with assms show ?thesis
    by (subst section_loop.simps) (simp only: Let_def f_write_def if_True if_False
      sum.case prod.case)
qed

lemma section_loop_single:
  assumes "0 < sect" "sect \<le> chnk" "sink (length (out st))"
    and "gen (rng st) sect = Inr (d, r')"
  shows "section_loop gen sect chnk mm sink st 0 =
         Inr \<lparr>written = written st + sect, rng = r',
              out = out st @ plant_magics mm (written st) d\<rparr>"
proof -
  from assms(1,2) have m: "min chnk (sect - 0) = sect" by simp
  from assms have "section_loop gen sect chnk mm sink st 0 =
         section_loop gen sect chnk mm sink
           \<lparr>written = written st + min chnk (sect - 0), rng = r',
            out = out st @ plant_magics mm (written st) d\<rparr>
           (0 + min chnk (sect - 0))"
    by (intro section_loop_step) (simp_all add: m)
  also have "\<dots> = Inr \<lparr>written = written st + sect, rng = r',
              out = out st @ plant_magics mm (written st) d\<rparr>"
    unfolding m by (subst section_loop.simps) simp
  finally show ?thesis .
qed

text \<open>
  C4 fails as stated. Same generator, same seed, same 64-byte sections, no signatures, chunk
  size 32 against chunk size 64: the files differ in the log section (the second chunk
  starts a new line with a restarted timestamp) and in the record section (the second
  record has id 0 against id 1).
\<close>

theorem chunk_size_counterexample:
  "py_slice (written_bytes (generate lcg_rng 208 64 32 16 [] always)) 96 100 = [0, 0, 0, 0] \<and>
   py_slice (written_bytes (generate lcg_rng 208 64 64 16 [] always)) 96 100 = [1, 0, 0, 0] \<and>
   py_slice (written_bytes (generate lcg_rng 208 64 32 16 [] always)) 32 44
     = encode_ascii ''[1700003857]'' \<and>
   py_slice (written_bytes (generate lcg_rng 208 64 64 16 [] always)) 32 44
     = encode_ascii ''nnection est''"
  by code_simp

text \<open>
  C4 as amended. Only the generator state crosses a chunk boundary: a pass of the section
  loop calls the section's generator afresh on the state the chunk before left, splices and
  appends. A section written as one chunk is therefore one call over the whole section.
  Each call of the record generator starts at id 0 and each call of the log generator at
  the timestamp 1700000000.
\<close>

theorem chunked_generation:
  "(sw < sect \<and> 0 < chnk \<and> sink (length (out st)) \<and>
    gen (rng st) (min chnk (sect - sw)) = Inr (d, r') \<longrightarrow>
      section_loop gen sect chnk mm sink st sw =
      section_loop gen sect chnk mm sink
        \<lparr>written = written st + min chnk (sect - sw), rng = r',
         out = out st @ plant_magics mm (written st) d\<rparr>
        (sw + min chnk (sect - sw))) \<and>
   (0 < sect \<and> sect \<le> chnk \<and> sink (length (out st)) \<and> gen (rng st) sect = Inr (d, r') \<longrightarrow>
      section_loop gen sect chnk mm sink st 0 =
      Inr \<lparr>written = written st + sect, rng = r',
           out = out st @ plant_magics mm (written st) d\<rparr>) \<and>
   (rng_ok ops \<and> gen_structured_records ops r n = Inr (recs, r1) \<and> 32 \<le> n \<longrightarrow>
      py_slice recs 0 4 = le_bytes 4 0) \<and>
   gen_structured_records ops r n =
     (case records_loop ops n [] 0 r of Inl e \<Rightarrow> Inl e | Inr (buf, r2) \<Rightarrow> Inr (take n buf, r2)) \<and>
   gen_ascii_log ops r n =
     (case ascii_log_loop ops n [] 1700000000 r of (buf, r2) \<Rightarrow> (take n buf, r2))"
proof (intro conjI impI)
  assume "sw < sect \<and> 0 < chnk \<and> sink (length (out st)) \<and>
    gen (rng st) (min chnk (sect - sw)) = Inr (d, r')"
  then show "section_loop gen sect chnk mm sink st sw =
      section_loop gen sect chnk mm sink
        \<lparr>written = written st + min chnk (sect - sw), rng = r',
         out = out st @ plant_magics mm (written st) d\<rparr>
        (sw + min chnk (sect - sw))"
    by (intro section_loop_step) simp_all
next
  assume "0 < sect \<and> sect \<le> chnk \<and> sink (length (out st)) \<and> gen (rng st) sect = Inr (d, r')"
  then show "section_loop gen sect chnk mm sink st 0 =
      Inr \<lparr>written = written st + sect, rng = r',
           out = out st @ plant_magics mm (written st) d\<rparr>"
    by (intro section_loop_single) simp_all
next
  assume a: "rng_ok ops \<and> gen_structured_records ops r n = Inr (recs, r1) \<and> 32 \<le> n"
  then have "record_at recs 0"
    by (intro gen_structured_records_records [of ops r n recs r1 0]) simp_all
  then show "py_slice recs 0 4 = le_bytes 4 0" by (simp add: record_at_def)
next
  show "gen_structured_records ops r n =
     (case records_loop ops n [] 0 r of Inl e \<Rightarrow> Inl e | Inr (buf, r2) \<Rightarrow> Inr (take n buf, r2))"
    by (simp add: gen_structured_records_def)
  show "gen_ascii_log ops r n =
     (case ascii_log_loop ops n [] 1700000000 r of (buf, r2) \<Rightarrow> (take n buf, r2))"
    by (simp add: gen_ascii_log_def)
qed

lemma two_chunks_example:
  "gen_structured_records lcg_rng 42 32 =
     Inr ([0, 0, 0, 0, 7, 241, 83, 101, 0, 0, 0, 0, 137, 66, 0, 0, 165, 117, 32, 69, 109, 132,
           97, 129, 84, 18, 238, 212, 181, 48, 69, 11], 2852860648)"
  "gen_structured_records lcg_rng 2852860648 32 =
     Inr ([0, 0, 0, 0, 2, 241, 83, 101, 0, 0, 0, 0, 227, 85, 0, 0, 153, 212, 142, 176, 110, 47,
           119, 233, 247, 149, 113, 186, 47, 229, 188, 243], 3488818774)"
  by code_simp+

theorem chunked_generation_witness:
  "section_loop (gen_structured_records lcg_rng) 64 32 [] always
     \<lparr>written = 0, rng = 42, out = []\<rparr> 0 =
   Inr \<lparr>written = 64, rng = 3488818774,
        out = [0, 0, 0, 0, 7, 241, 83, 101, 0, 0, 0, 0, 137, 66, 0, 0, 165, 117, 32, 69, 109,
               132, 97, 129, 84, 18, 238, 212, 181, 48, 69, 11] @
              [0, 0, 0, 0, 2, 241, 83, 101, 0, 0, 0, 0, 227, 85, 0, 0, 153, 212, 142, 176, 110,
               47, 119, 233, 247, 149, 113, 186, 47, 229, 188, 243]\<rparr>"
proof -
  let ?d1 = "[0, 0, 0, 0, 7, 241, 83, 101, 0, 0, 0, 0, 137, 66, 0, 0, 165, 117, 32, 69, 109,
               132, 97, 129, 84, 18, 238, 212, 181, 48, 69, 11] :: byte list"
  let ?d2 = "[0, 0, 0, 0, 2, 241, 83, 101, 0, 0, 0, 0, 227, 85, 0, 0, 153, 212, 142, 176, 110,
               47, 119, 233, 247, 149, 113, 186, 47, 229, 188, 243] :: byte list"
  let ?g = "gen_structured_records lcg_rng"
  let ?st0 = "\<lparr>written = 0, rng = 42 :: int, out = []\<rparr>"
  let ?st1 = "\<lparr>written = 32, rng = 2852860648 :: int, out = ?d1\<rparr>"
  have "section_loop ?g 64 32 [] always ?st0 0 = section_loop ?g 64 32 [] always ?st1 32"
    using chunked_generation [of 0 64 32 always ?st0 ?g ?d1 2852860648 "[]",
        THEN conjunct1]
    by (simp add: two_chunks_example always_def plant_magics_def)
  also have "\<dots> = section_loop ?g 64 32 [] always
       \<lparr>written = 64, rng = 3488818774, out = ?d1 @ ?d2\<rparr> 64"
    using chunked_generation [of 32 64 32 always ?st1 ?g ?d2 3488818774 "[]",
        THEN conjunct1]
    by (simp add: two_chunks_example always_def plant_magics_def)
  also have "\<dots> = Inr \<lparr>written = 64, rng = 3488818774, out = ?d1 @ ?d2\<rparr>"
    by (subst section_loop.simps) simp
  finally show ?thesis .
qed

subsection \<open>Plans are not validated\<close>








end
